theory Spec2Isabelle
  imports Complex_Main "HOL-Library.Multiset" "HOL-Library.Sublist"
begin

section \<open>Data model\<close>

text \<open>
  The boundary engine of \<^verbatim>\<open>scan.py\<close> (class \<^verbatim>\<open>DocScanner\<close>) works on pixel
  coordinates. A corner is a tuple of two integers; a contour is the numpy array of shape
  \<^verbatim>\<open>(n, 1, 2)\<close> of OpenCV, here the list of its \<open>n\<close> points (the middle axis of
  length one carries nothing, so \<^verbatim>\<open>quad[i][0]\<close> is the \<open>i\<close>-th element of the list).

  A float of the program is a double: a real number that a double can hold, or
  \<^verbatim>\<open>nan\<close>. \<^verbatim>\<open>nan\<close> is kept because the code produces it (a division
  \<^verbatim>\<open>0.0 / 0.0\<close> of numpy scalars warns and yields \<^verbatim>\<open>nan\<close>, it does not raise) and
  because every comparison with it is false.
\<close>

type_synonym point = "int \<times> int"

type_synonym vec = "real \<times> real"

type_synonym contour = "point list"

datatype fl = NaN | Fin real

datatype error = ValueError | IndexError

text \<open>
  The functions of other modules that the code calls are parameters of the model, the
  fields of one record. What is proved for every such record holds for the functions
  that the program runs with.
  \<^item> The arithmetic of doubles, as numpy and Python apply it: \<^verbatim>\<open>np.radians\<close> on one
    coordinate, the difference of two floats, \<^verbatim>\<open>np.dot\<close> and \<^verbatim>\<open>np.linalg.norm\<close> on
    vectors of two floats, the product and the quotient of two floats, the value of
    \<^verbatim>\<open>math.acos\<close> on an argument between -1 and 1, and \<^verbatim>\<open>np.degrees\<close>. Each rounds
    its result to a double. The instance \<open>binary64\<close> below defines them by rounding to
    nearest, ties to even.
  \<^item> \<^verbatim>\<open>cv2.contourArea\<close> and \<^verbatim>\<open>cv2.approxPolyDP\<close> of OpenCV.
  \<^item> \<^verbatim>\<open>transform.order_points\<close> of the package \<^verbatim>\<open>pyimagesearch\<close>, taken together with
    the conversion \<^verbatim>\<open>np.array([[p] for p in points], dtype="int32")\<close> that follows it,
    so it maps four corners to a contour.
\<close>

record library =
  np_radians :: "real \<Rightarrow> real"
  np_subtract :: "real \<Rightarrow> real \<Rightarrow> real"
  np_dot :: "vec \<Rightarrow> vec \<Rightarrow> real"
  linalg_norm :: "vec \<Rightarrow> real"
  np_multiply :: "real \<Rightarrow> real \<Rightarrow> real"
  np_divide :: "real \<Rightarrow> real \<Rightarrow> fl"
  acos_value :: "real \<Rightarrow> real"
  np_degrees :: "real \<Rightarrow> real"
  contourArea :: "contour \<Rightarrow> real"
  approxPolyDP :: "contour \<Rightarrow> real \<Rightarrow> bool \<Rightarrow> contour"
  order_points :: "point list \<Rightarrow> contour"

text \<open>The thresholds of a \<^verbatim>\<open>DocScanner\<close> instance (\<^verbatim>\<open>self\<close>).\<close>

record scanner =
  MIN_QUAD_AREA_RATIO :: real
  MAX_QUAD_ANGLE_RANGE :: real

definition default_scanner :: scanner where
  "default_scanner = \<lparr>MIN_QUAD_AREA_RATIO = 0.25, MAX_QUAD_ANGLE_RANGE = 40\<rparr>"

section \<open>Geometry utilities\<close>

subsection \<open>\<^verbatim>\<open>filter_corners\<close>\<close>

text \<open>\<^verbatim>\<open>scipy.spatial.distance.euclidean\<close> on two corners.\<close>

definition euclidean :: "point \<Rightarrow> point \<Rightarrow> real" where
  "euclidean u v = sqrt (real_of_int ((fst u - fst v)\<^sup>2 + (snd u - snd v)\<^sup>2))"

text \<open>The inner function \<^verbatim>\<open>predicate(representatives, corner)\<close>; \<^verbatim>\<open>min_dist\<close> is the
  variable of the enclosing call that it closes over.\<close>

definition predicate :: "real \<Rightarrow> point list \<Rightarrow> point \<Rightarrow> bool" where
  "predicate min_dist representatives corner =
     list_all (\<lambda>representative. euclidean representative corner \<ge> min_dist) representatives"

text \<open>The \<^verbatim>\<open>for c in corners\<close> loop, with \<^verbatim>\<open>filtered_corners\<close> as the state.\<close>

fun filter_loop :: "real \<Rightarrow> point list \<Rightarrow> point list \<Rightarrow> point list" where
  "filter_loop min_dist [] filtered_corners = filtered_corners"
| "filter_loop min_dist (c # corners) filtered_corners =
     filter_loop min_dist corners
       (if predicate min_dist filtered_corners c then filtered_corners @ [c]
        else filtered_corners)"

definition filter_corners :: "point list \<Rightarrow> real \<Rightarrow> point list" where
  "filter_corners corners min_dist = filter_loop min_dist corners []"

subsection \<open>Angles\<close>

text \<open>Errors are values: \<open>Inl\<close> is a raised exception. \<open>and_then\<close> runs the rest of a
  computation on the result of a step that did not raise.\<close>

definition and_then :: "error + 'a \<Rightarrow> ('a \<Rightarrow> error + 'b) \<Rightarrow> error + 'b" where
  "and_then m f = (case m of Inl e \<Rightarrow> Inl e | Inr x \<Rightarrow> f x)"

text \<open>\<^verbatim>\<open>np.radians(np.array(p))\<close> and the difference \<^verbatim>\<open>a - b\<close> of two arrays, both
  coordinate by coordinate.\<close>

definition radians :: "library \<Rightarrow> point \<Rightarrow> vec" where
  "radians lib p = (np_radians lib (real_of_int (fst p)), np_radians lib (real_of_int (snd p)))"

definition vsub :: "library \<Rightarrow> vec \<Rightarrow> vec \<Rightarrow> vec" where
  "vsub lib a b = (np_subtract lib (fst a) (fst b), np_subtract lib (snd a) (snd b))"

text \<open>\<^verbatim>\<open>math.acos\<close> raises \<^verbatim>\<open>ValueError\<close> (math domain error) outside \<open>[-1, 1]\<close> and
  returns \<^verbatim>\<open>nan\<close> on \<^verbatim>\<open>nan\<close>.\<close>

definition math_acos :: "library \<Rightarrow> fl \<Rightarrow> error + fl" where
  "math_acos lib x =
     (case x of
        NaN \<Rightarrow> Inr NaN
      | Fin r \<Rightarrow> if - 1 \<le> r \<and> r \<le> 1 then Inr (Fin (acos_value lib r)) else Inl ValueError)"

definition degrees :: "library \<Rightarrow> fl \<Rightarrow> fl" where
  "degrees lib x = (case x of NaN \<Rightarrow> NaN | Fin r \<Rightarrow> Fin (np_degrees lib r))"

definition angle_between_vectors_degrees :: "library \<Rightarrow> vec \<Rightarrow> vec \<Rightarrow> error + fl" where
  "angle_between_vectors_degrees lib u v =
     and_then
       (math_acos lib
          (np_divide lib (np_dot lib u v)
             (np_multiply lib (linalg_norm lib u) (linalg_norm lib v))))
       (\<lambda>a. Inr (degrees lib a))"

definition get_angle :: "library \<Rightarrow> point \<Rightarrow> point \<Rightarrow> point \<Rightarrow> error + fl" where
  "get_angle lib p1 p2 p3 =
     (let a = radians lib p1; b = radians lib p2; c = radians lib p3;
          avec = vsub lib a b; cvec = vsub lib c b
      in angle_between_vectors_degrees lib avec cvec)"

text \<open>Comparison and the extrema of floats: \<open><\<close> is false when either side is
  \<^verbatim>\<open>nan\<close>; numpy's maximum and minimum propagate \<^verbatim>\<open>nan\<close>, and so does the difference.\<close>

fun py_lt :: "fl \<Rightarrow> fl \<Rightarrow> bool" where
  "py_lt (Fin a) (Fin b) = (a < b)"
| "py_lt _ _ = False"

fun np_maximum :: "fl \<Rightarrow> fl \<Rightarrow> fl" where
  "np_maximum (Fin a) (Fin b) = Fin (max a b)"
| "np_maximum _ _ = NaN"

fun np_minimum :: "fl \<Rightarrow> fl \<Rightarrow> fl" where
  "np_minimum (Fin a) (Fin b) = Fin (min a b)"
| "np_minimum _ _ = NaN"

fun fl_subtract :: "library \<Rightarrow> fl \<Rightarrow> fl \<Rightarrow> fl" where
  "fl_subtract lib (Fin a) (Fin b) = Fin (np_subtract lib a b)"
| "fl_subtract lib _ _ = NaN"

text \<open>\<^verbatim>\<open>np.ptp\<close>: maximum minus minimum; it raises on an empty sequence.\<close>

definition np_ptp :: "library \<Rightarrow> fl list \<Rightarrow> error + fl" where
  "np_ptp lib xs =
     (case xs of
        [] \<Rightarrow> Inl ValueError
      | x # ys \<Rightarrow> Inr (fl_subtract lib (foldl np_maximum x ys) (foldl np_minimum x ys)))"

text \<open>\<^verbatim>\<open>angle_range\<close>. The unpacking \<^verbatim>\<open>tl, tr, br, bl = quad\<close> raises
  \<^verbatim>\<open>ValueError\<close> unless the contour has exactly four points (the vertices are primed
  here because \<open>tl\<close> is the tail of a list in HOL).\<close>

definition angle_range :: "library \<Rightarrow> contour \<Rightarrow> error + fl" where
  "angle_range lib quad =
     (case quad of
        [tl', tr', br', bl'] \<Rightarrow>
          and_then (get_angle lib tl' tr' br') (\<lambda>ura.
          and_then (get_angle lib bl' tl' tr') (\<lambda>ula.
          and_then (get_angle lib tr' br' bl') (\<lambda>lra.
          and_then (get_angle lib br' bl' tl') (\<lambda>lla.
          np_ptp lib [ura, ula, lra, lla]))))
      | _ \<Rightarrow> Inl ValueError)"

section \<open>Candidate generation and selection\<close>

text \<open>\<^verbatim>\<open>is_valid_contour\<close>. The threshold \<^verbatim>\<open>IM_WIDTH * IM_HEIGHT * self.MIN_QUAD_AREA_RATIO\<close>
  is the product of an integer and a float, a float.\<close>

definition is_valid_contour :: "scanner \<Rightarrow> library \<Rightarrow> contour \<Rightarrow> int \<Rightarrow> int \<Rightarrow> error + bool" where
  "is_valid_contour self lib cnt IM_WIDTH IM_HEIGHT =
     (if length cnt = 4
         \<and> contourArea lib cnt
             > np_multiply lib (real_of_int (IM_WIDTH * IM_HEIGHT)) (MIN_QUAD_AREA_RATIO self)
      then and_then (angle_range lib cnt) (\<lambda>r. Inr (py_lt r (Fin (MAX_QUAD_ANGLE_RANGE self))))
      else Inr False)"

text \<open>\<^verbatim>\<open>itertools.combinations(iterable, r)\<close>: the subsequences of length \<open>r\<close>, in
  lexicographic order of their positions.\<close>

fun combinations :: "'a list \<Rightarrow> nat \<Rightarrow> 'a list list" where
  "combinations xs 0 = [[]]"
| "combinations [] (Suc r) = []"
| "combinations (x # xs) (Suc r) =
     map ((#) x) (combinations xs r) @ combinations xs (Suc r)"

text \<open>
  The builtin \<^verbatim>\<open>sorted(iterable, key=..., reverse=...)\<close>. It computes the key of every
  item first, in order (an exception of the key function leaves \<^verbatim>\<open>sorted\<close>), then
  sorts stably, comparing keys with \<open><\<close> only; \<^verbatim>\<open>reverse=True\<close> reverses the list
  before and after sorting, which keeps items with equal keys in their original order.
  The sort is modelled by stable insertion. On keys that \<open><\<close> orders totally every
  stable sort returns the same list; with a \<^verbatim>\<open>nan\<close> among the keys the list that CPython
  returns depends on its merge strategy, and nothing below is stated for such keys.
\<close>

fun insort_lt :: "('k \<Rightarrow> 'k \<Rightarrow> bool) \<Rightarrow> 'k \<times> 'a \<Rightarrow> ('k \<times> 'a) list \<Rightarrow> ('k \<times> 'a) list" where
  "insort_lt lt x [] = [x]"
| "insort_lt lt x (y # ys) =
     (if lt (fst y) (fst x) then y # insort_lt lt x ys else x # y # ys)"

definition stable_sort :: "('k \<Rightarrow> 'k \<Rightarrow> bool) \<Rightarrow> ('k \<times> 'a) list \<Rightarrow> ('k \<times> 'a) list" where
  "stable_sort lt kxs = foldr (insort_lt lt) kxs []"

fun map_keys :: "('a \<Rightarrow> error + 'k) \<Rightarrow> 'a list \<Rightarrow> error + 'k list" where
  "map_keys key [] = Inr []"
| "map_keys key (x # xs) =
     (case key x of
        Inl e \<Rightarrow> Inl e
      | Inr k \<Rightarrow> (case map_keys key xs of Inl e \<Rightarrow> Inl e | Inr ks \<Rightarrow> Inr (k # ks)))"

definition sorted_py ::
  "('k \<Rightarrow> 'k \<Rightarrow> bool) \<Rightarrow> ('a \<Rightarrow> error + 'k) \<Rightarrow> bool \<Rightarrow> 'a list \<Rightarrow> error + 'a list" where
  "sorted_py lt key reverse xs =
     and_then (map_keys key xs) (\<lambda>ks.
       let d = zip ks xs
       in Inr (map snd (if reverse then rev (stable_sort lt (rev d)) else stable_sort lt d)))"

text \<open>The builtin \<^verbatim>\<open>max(iterable, key=...)\<close>: the running maximum is replaced only by
  an item whose key is strictly greater, so the first maximal item is returned; it raises
  \<^verbatim>\<open>ValueError\<close> on an empty sequence.\<close>

fun max_loop :: "('a \<Rightarrow> real) \<Rightarrow> 'a \<Rightarrow> 'a list \<Rightarrow> 'a" where
  "max_loop key maxitem [] = maxitem"
| "max_loop key maxitem (item # items) =
     max_loop key (if key item > key maxitem then item else maxitem) items"

definition max_py :: "('a \<Rightarrow> real) \<Rightarrow> 'a list \<Rightarrow> error + 'a" where
  "max_py key xs = (case xs of [] \<Rightarrow> Inl ValueError | x # ys \<Rightarrow> Inr (max_loop key x ys))"

text \<open>\<^verbatim>\<open>screenCnt.reshape(4, 2)\<close> raises unless the array holds four points.\<close>

definition reshape_4_2 :: "contour \<Rightarrow> error + point list" where
  "reshape_4_2 c = (if length c = 4 then Inr c else Inl ValueError)"

text \<open>Lines 234 to 250 of \<^verbatim>\<open>get_contour\<close>: what the corners contribute to
  \<^verbatim>\<open>approx_contours\<close>, which is empty before.\<close>

definition corner_path :: "scanner \<Rightarrow> library \<Rightarrow> int \<Rightarrow> int \<Rightarrow> point list \<Rightarrow> error + contour list" where
  "corner_path self lib IM_WIDTH IM_HEIGHT test_corners =
     (if length test_corners \<ge> 4 then
        let quads = map (order_points lib) (combinations test_corners 4) in
        and_then (sorted_py (<) (\<lambda>q. Inr (contourArea lib q)) True quads) (\<lambda>s.
        let quads = take 5 s in
        and_then (sorted_py py_lt (angle_range lib) False quads) (\<lambda>quads.
        case quads of
          [] \<Rightarrow> Inl IndexError
        | approx # _ \<Rightarrow>
            and_then (is_valid_contour self lib approx IM_WIDTH IM_HEIGHT) (\<lambda>ok.
            Inr (if ok then [approx] else []))))
      else Inr [])"

text \<open>Lines 265 to 270: the loop over the contours, with \<^verbatim>\<open>approx_contours\<close> as the
  state; the \<^verbatim>\<open>break\<close> ends it at the first valid approximation.\<close>

fun contour_loop ::
  "scanner \<Rightarrow> library \<Rightarrow> int \<Rightarrow> int \<Rightarrow> contour list \<Rightarrow> contour list \<Rightarrow> error + contour list" where
  "contour_loop self lib IM_WIDTH IM_HEIGHT [] approx_contours = Inr approx_contours"
| "contour_loop self lib IM_WIDTH IM_HEIGHT (c # cnts) approx_contours =
     (let approx = approxPolyDP lib c 80 True
      in case is_valid_contour self lib approx IM_WIDTH IM_HEIGHT of
           Inl e \<Rightarrow> Inl e
         | Inr ok \<Rightarrow>
             if ok then Inr (approx_contours @ [approx])
             else contour_loop self lib IM_WIDTH IM_HEIGHT cnts approx_contours)"

text \<open>
  \<^verbatim>\<open>get_contour\<close>, from the point where the vision primitives have run: \<open>IM_WIDTH\<close>
  and \<open>IM_HEIGHT\<close> are the shape of the rescaled image, \<open>test_corners\<close> is the result
  of \<^verbatim>\<open>get_corners\<close> and \<open>cnts\<close> the contours of \<^verbatim>\<open>cv2.findContours\<close>.
\<close>

definition get_contour ::
  "scanner \<Rightarrow> library \<Rightarrow> int \<Rightarrow> int \<Rightarrow> point list \<Rightarrow> contour list \<Rightarrow> error + (point list \<times> bool)" where
  "get_contour self lib IM_WIDTH IM_HEIGHT test_corners cnts =
     and_then (corner_path self lib IM_WIDTH IM_HEIGHT test_corners) (\<lambda>approx_contours.
     and_then (sorted_py (<) (\<lambda>c. Inr (contourArea lib c)) True cnts) (\<lambda>s.
     let cnts = take 5 s in
     and_then (contour_loop self lib IM_WIDTH IM_HEIGHT cnts approx_contours) (\<lambda>approx_contours.
     let has_cnt = (length approx_contours \<noteq> 0) in
     and_then
       (if approx_contours = [] then
          let TOP_RIGHT = (IM_WIDTH, 0); BOTTOM_RIGHT = (IM_WIDTH, IM_HEIGHT);
              BOTTOM_LEFT = (0, IM_HEIGHT); TOP_LEFT = (0, 0)
          in Inr [TOP_RIGHT, BOTTOM_RIGHT, BOTTOM_LEFT, TOP_LEFT]
        else max_py (contourArea lib) approx_contours) (\<lambda>screenCnt.
     and_then (reshape_4_2 screenCnt) (\<lambda>r. Inr (r, has_cnt))))))"

text \<open>Lines 257 to 270 alone: what the contours contribute, whatever
  \<^verbatim>\<open>approx_contours\<close> held before.\<close>

definition contour_path ::
  "scanner \<Rightarrow> library \<Rightarrow> int \<Rightarrow> int \<Rightarrow> contour list \<Rightarrow> error + contour list" where
  "contour_path self lib IM_WIDTH IM_HEIGHT cnts =
     and_then (sorted_py (<) (\<lambda>c. Inr (contourArea lib c)) True cnts) (\<lambda>s.
     contour_loop self lib IM_WIDTH IM_HEIGHT (take 5 s) [])"

section \<open>The arithmetic of doubles\<close>

text \<open>
  Rounding to the nearest double, ties to even: a real number \<open>x \<noteq> 0\<close> lies in one
  binade, \<open>2 ^ 52 \<le> |x| / 2 ^ e < 2 ^ 53\<close>, and is rounded to the nearest multiple of
  \<open>2 ^ e\<close>. Overflow and underflow are left out: the numbers of the angle computation
  are products, sums and square roots of pixel coordinates times \<open>\<pi> / 180\<close>, far from
  both ends of the range of a double.
\<close>

definition round_even :: "real \<Rightarrow> int" where
  "round_even m =
     (let f = \<lfloor>m\<rfloor>; d = m - of_int f
      in if d < 1 / 2 then f else if 1 / 2 < d then f + 1 else if even f then f else f + 1)"

definition rnd :: "real \<Rightarrow> real" where
  "rnd x =
     (if x = 0 then 0
      else let e = \<lfloor>log 2 \<bar>x\<bar>\<rfloor> - 52
           in of_int (round_even (x / 2 powr (of_int e))) * 2 powr (of_int e))"

text \<open>The doubles \<^verbatim>\<open>NPY_PI / 180.0\<close> (\<^verbatim>\<open>0x1.1df46a2529d39p-6\<close>) and \<^verbatim>\<open>180.0 / NPY_PI\<close>
  (\<^verbatim>\<open>0x1.ca5dc1a63c1f8p+5\<close>), by which \<^verbatim>\<open>np.radians\<close> and \<^verbatim>\<open>np.degrees\<close> multiply.\<close>

definition deg2rad :: real where
  "deg2rad = 5030569068109113 / 2 ^ 58"

definition rad2deg :: real where
  "rad2deg = 1007958012753983 / 2 ^ 44"

text \<open>
  The operations on doubles. \<^verbatim>\<open>np.dot\<close> of two vectors of two floats rounds each
  product and then the sum; \<^verbatim>\<open>np.linalg.norm\<close> of a vector \<open>x\<close> is
  \<^verbatim>\<open>sqrt(x.dot(x))\<close>. A zero divisor gives \<^verbatim>\<open>nan\<close> for a zero dividend; the one
  division of the program is \<open>dot u v / (|u| * |v|)\<close>, where a zero divisor forces a
  zero dividend (lemma \<open>binary64_zero_divisor\<close> below), so the infinities of a nonzero
  dividend do not arise. \<^verbatim>\<open>math.acos\<close> is taken as correctly rounded; nothing below
  depends on its values, except that it is 0 at 1 and nowhere else.
\<close>

definition dot64 :: "vec \<Rightarrow> vec \<Rightarrow> real" where
  "dot64 u v = rnd (rnd (fst u * fst v) + rnd (snd u * snd v))"

text \<open>An instance of the library for the examples: the arithmetic of doubles; for
  OpenCV the area of a polygon by the shoelace formula and a polygon approximation that
  changes nothing; a point ordering that changes nothing.\<close>

fun shoelace :: "point \<Rightarrow> point list \<Rightarrow> int" where
  "shoelace p0 [] = 0"
| "shoelace p0 [p] = fst p * snd p0 - fst p0 * snd p"
| "shoelace p0 (p # q # ps) = fst p * snd q - fst q * snd p + shoelace p0 (q # ps)"

definition polygon_area :: "contour \<Rightarrow> real" where
  "polygon_area c = (case c of [] \<Rightarrow> 0 | p # ps \<Rightarrow> \<bar>real_of_int (shoelace p c)\<bar> / 2)"

definition binary64 :: library where
  "binary64 =
     \<lparr>np_radians = (\<lambda>x. rnd (x * deg2rad)),
      np_subtract = (\<lambda>a b. rnd (a - b)),
      np_dot = dot64,
      linalg_norm = (\<lambda>u. rnd (sqrt (dot64 u u))),
      np_multiply = (\<lambda>a b. rnd (a * b)),
      np_divide = (\<lambda>a b. if b = 0 then NaN else Fin (rnd (a / b))),
      acos_value = (\<lambda>r. rnd (arccos r)),
      np_degrees = (\<lambda>r. rnd (r * rad2deg)),
      contourArea = polygon_area,
      approxPolyDP = (\<lambda>c epsilon closed. c),
      order_points = (\<lambda>pts. pts)\<rparr>"

text \<open>The same library with arithmetic that does not round.\<close>

definition dot :: "vec \<Rightarrow> vec \<Rightarrow> real" where
  "dot u v = fst u * fst v + snd u * snd v"

definition vnorm :: "vec \<Rightarrow> real" where
  "vnorm u = sqrt ((fst u)\<^sup>2 + (snd u)\<^sup>2)"

definition exact_arithmetic :: "library \<Rightarrow> library" where
  "exact_arithmetic lib =
     lib\<lparr>np_radians := (\<lambda>x. x * pi / 180),
         np_subtract := (\<lambda>a b. a - b),
         np_dot := dot,
         linalg_norm := vnorm,
         np_multiply := (\<lambda>a b. a * b),
         np_divide := (\<lambda>a b. if b = 0 then NaN else Fin (a / b)),
         acos_value := arccos,
         np_degrees := (\<lambda>r. r * 180 / pi)\<rparr>"

section \<open>Auxiliary notions of the proofs\<close>


text \<open>The validity criteria as a predicate: \<^verbatim>\<open>is_valid_contour\<close> returns true.\<close>

definition valid_quad :: "scanner \<Rightarrow> library \<Rightarrow> int \<Rightarrow> int \<Rightarrow> contour \<Rightarrow> bool" where
  "valid_quad self lib W H cnt =
     (length cnt = 4
      \<and> contourArea lib cnt
          > np_multiply lib (real_of_int (W * H)) (MIN_QUAD_AREA_RATIO self)
      \<and> (case angle_range lib cnt of
           Inr (Fin r) \<Rightarrow> r < MAX_QUAD_ANGLE_RANGE self
         | _ \<Rightarrow> False))"

text \<open>The (at most) five items of greatest area, in descending order of area, items of
  equal area in their original order.\<close>

definition largest5 :: "library \<Rightarrow> contour list \<Rightarrow> contour list" where
  "largest5 lib cs = take 5 (sort_key (\<lambda>c. - contourArea lib c) cs)"

text \<open>The number in a float, and the angle range of a contour as a number; both are
  used only where the float is not \<^verbatim>\<open>nan\<close>.\<close>

fun fin_val :: "fl \<Rightarrow> real" where
  "fin_val (Fin r) = r"
| "fin_val NaN = 0"

definition angle_range_val :: "library \<Rightarrow> contour \<Rightarrow> real" where
  "angle_range_val lib q = (case angle_range lib q of Inr k \<Rightarrow> fin_val k | Inl e \<Rightarrow> 0)"

text \<open>
  Modelled from the spec: \<^verbatim>\<open>transform.order_points\<close> (\<^verbatim>\<open>orderClockwiseFromTopLeft\<close>
  in the spec), whose source is in the package \<^verbatim>\<open>pyimagesearch\<close> and not among the
  files verified here. The spec says that it sorts 4 points into the canonical order of a
  quadrilateral, clockwise starting at top-left. \<open>canonical_order pts quad\<close> says that
  \<open>quad\<close> is a result the spec allows for the input \<open>pts\<close>: the same four points,
  each once, in clockwise order. In image coordinates (\<open>y\<close> grows downwards) a turn
  \<open>a, b, c\<close> is clockwise when \<open>cross3 a b c\<close> is positive, as for top-left,
  top-right, bottom-right. Which vertex comes first is left open: what is proved of
  every clockwise order holds of the one that starts at top-left.
\<close>

definition cross3 :: "point \<Rightarrow> point \<Rightarrow> point \<Rightarrow> int" where
  "cross3 a b c =
     (fst b - fst a) * (snd c - snd b) - (snd b - snd a) * (fst c - fst b)"

fun clockwise :: "contour \<Rightarrow> bool" where
  "clockwise [a, b, c, d] =
     (cross3 a b c > 0 \<and> cross3 b c d > 0 \<and> cross3 c d a > 0 \<and> cross3 d a b > 0)"
| "clockwise _ = False"

definition canonical_order :: "point list \<Rightarrow> contour \<Rightarrow> bool" where
  "canonical_order pts quad = (mset quad = mset pts \<and> clockwise quad)"

text \<open>A point ordering for the examples that puts a mirrored quadrilateral back into
  clockwise order.\<close>

definition example_order :: "point list \<Rightarrow> contour" where
  "example_order pts = (if clockwise pts then pts else rev pts)"

text \<open>The frame as \<^verbatim>\<open>get_contour\<close> builds it.\<close>

definition whole_image :: "int \<Rightarrow> int \<Rightarrow> point list" where
  "whole_image W H = [(W, 0), (W, H), (0, H), (0, 0)]"

text \<open>A corner as a real vector, the difference of two vectors, and the multiple of a
  vector, all without rounding.\<close>

definition vec_of :: "point \<Rightarrow> vec" where
  "vec_of p = (real_of_int (fst p), real_of_int (snd p))"

definition vdiff :: "vec \<Rightarrow> vec \<Rightarrow> vec" where
  "vdiff a b = (fst a - fst b, snd a - snd b)"

definition vscale :: "real \<Rightarrow> vec \<Rightarrow> vec" where
  "vscale k u = (k * fst u, k * snd u)"

text \<open>The angle at \<open>p2\<close> in degrees between the rays to \<open>p1\<close> and \<open>p3\<close>, as a real
  number: what \<^verbatim>\<open>get_angle\<close> would return without rounding.\<close>

definition angle_at :: "point \<Rightarrow> point \<Rightarrow> point \<Rightarrow> fl" where
  "angle_at p1 p2 p3 =
     (let u = vdiff (vec_of p1) (vec_of p2); v = vdiff (vec_of p3) (vec_of p2)
      in if p1 = p2 \<or> p3 = p2 then NaN
         else Fin (arccos (dot u v / (vnorm u * vnorm v)) * 180 / pi))"

text \<open>A list is \<open>spread\<close> when each element passes the predicate against the elements
  before it.\<close>

fun spread :: "real \<Rightarrow> point list \<Rightarrow> point list \<Rightarrow> bool" where
  "spread d acc [] = True"
| "spread d acc (c # cs) = (predicate d acc c \<and> spread d (acc @ [c]) cs)"

section \<open>Properties of \<^verbatim>\<open>filter_corners\<close>\<close>

lemma euclidean_ge_iff:
  "d \<le> euclidean u v \<longleftrightarrow>
     d \<le> 0 \<or> d\<^sup>2 \<le> real_of_int ((fst u - fst v)\<^sup>2 + (snd u - snd v)\<^sup>2)"
proof -
  define s where "s = real_of_int ((fst u - fst v)\<^sup>2 + (snd u - snd v)\<^sup>2)"
  have s0: "0 \<le> s" by (simp add: s_def)
  have "d \<le> sqrt s \<longleftrightarrow> d \<le> 0 \<or> d\<^sup>2 \<le> s"
  proof (cases "d \<le> 0")
    case True
    then show ?thesis using s0 by (simp add: order_trans [of d 0 "sqrt s"])
  next
    case False
    then have d0: "0 < d" by simp
    show ?thesis
    proof
      assume "d \<le> sqrt s"
      then have "d\<^sup>2 \<le> (sqrt s)\<^sup>2" using d0 by (intro power_mono) simp_all
      then show "d \<le> 0 \<or> d\<^sup>2 \<le> s" using s0 by simp
    next
      assume "d \<le> 0 \<or> d\<^sup>2 \<le> s"
      with False have "d\<^sup>2 \<le> s" by simp
      then show "d \<le> sqrt s" by (rule real_le_rsqrt)
    qed
  qed
  then show ?thesis by (simp add: euclidean_def s_def)
qed

lemma filter_loop_append:
  "filter_loop d (xs @ ys) acc = filter_loop d ys (filter_loop d xs acc)"
  by (induction xs arbitrary: acc) simp_all

lemma spread_snoc:
  "spread d acc (cs @ [c]) = (spread d acc cs \<and> predicate d (acc @ cs) c)"
  by (induction cs arbitrary: acc) auto

lemma filter_loop_spread_id:
  "spread d acc cs \<Longrightarrow> filter_loop d cs acc = acc @ cs"
  by (induction cs arbitrary: acc) auto

lemma filter_loop_result:
  "\<exists>ks. filter_loop d cs acc = acc @ ks \<and> (spread d [] acc \<longrightarrow> spread d [] (acc @ ks))"
proof (induction cs arbitrary: acc)
  case Nil
  then show ?case by simp
next
  case (Cons c cs)
  let ?acc' = "if predicate d acc c then acc @ [c] else acc"
  from Cons.IH [of ?acc'] obtain ks where
    ks: "filter_loop d cs ?acc' = ?acc' @ ks"
      "spread d [] ?acc' \<longrightarrow> spread d [] (?acc' @ ks)"
    by blast
  show ?case
  proof (cases "predicate d acc c")
    case True
    with ks have "filter_loop d (c # cs) acc = acc @ (c # ks)" by simp
    moreover have "spread d [] acc \<longrightarrow> spread d [] (acc @ (c # ks))"
      using ks(2) True by (simp add: spread_snoc)
    ultimately show ?thesis by blast
  next
    case False
    with ks show ?thesis by auto
  qed
qed

lemma filter_corners_spread: "spread d [] (filter_corners cs d)"
  using filter_loop_result [of d cs "[]"] by (auto simp: filter_corners_def)

text \<open>
  Claim C7. The close-point filter keeps a point exactly when its Euclidean distance to
  every point kept before it is at least the minimum distance: after any prefix \<open>cs\<close> of
  the input, the next point \<open>c\<close> is appended to what was kept if and only if it is at
  distance at least \<open>d\<close> from each kept point; and the filter is idempotent.
\<close>

theorem filter_corners_greedy_idempotent:
  "filter_corners [] d = []
   \<and> filter_corners (cs @ [c]) d =
       (if \<forall>r \<in> set (filter_corners cs d). euclidean r c \<ge> d
        then filter_corners cs d @ [c] else filter_corners cs d)
   \<and> filter_corners (filter_corners cs d) d = filter_corners cs d"
proof -
  have "filter_corners (filter_corners cs d) d = filter_corners cs d"
    using filter_loop_spread_id [OF filter_corners_spread, of d cs]
    by (simp add: filter_corners_def)
  then show ?thesis
    by (simp add: filter_corners_def filter_loop_append predicate_def list_all_iff)
qed

theorem filter_corners_greedy_idempotent_witness:
  "filter_corners [(0, 0), (10, 0)] 20 = [(0, 0)]
   \<and> euclidean (0, 0) (30, 0) \<ge> 20
   \<and> filter_corners ([(0, 0), (10, 0)] @ [(30, 0)]) 20 = [(0, 0), (30, 0)]
   \<and> filter_corners (filter_corners [(0, 0), (10, 0)] 20) 20 = [(0, 0)]"
  using filter_corners_greedy_idempotent [of 20 "[(0, 0), (10, 0)]" "(30, 0)"]
  by (simp add: filter_corners_def predicate_def euclidean_ge_iff)

section \<open>Properties of the builtin \<^verbatim>\<open>sorted\<close>\<close>

lemma map_keys_total: "map_keys (\<lambda>x. Inr (f x)) xs = Inr (map f xs)"
  by (induction xs) simp_all

lemma insort_lt_less:
  fixes x :: "'k::linorder \<times> 'a"
  shows "insort_lt (<) x ys = insort_key fst x ys"
  by (induction ys) auto

lemma stable_sort_less:
  fixes kxs :: "('k::linorder \<times> 'a) list"
  shows "stable_sort (<) kxs = sort_key fst kxs"
  by (induction kxs) (simp_all add: stable_sort_def insort_lt_less)

lemma sort_key_zip_keys:
  "map snd (sort_key fst (zip (map f xs) xs)) = sort_key f xs"
proof (rule properties_for_sort_key [symmetric])
  let ?d = "zip (map f xs) xs"
  have d: "?d = map (\<lambda>x. (f x, x)) xs" by (induction xs) simp_all
  show "mset (map snd (sort_key fst ?d)) = mset xs"
    by (simp add: d multiset.map_comp comp_def)
  have fst_snd: "\<And>p. p \<in> set ?d \<Longrightarrow> fst p = f (snd p)" by (auto simp: d)
  have "map f (map snd (sort_key fst ?d)) = map fst (sort_key fst ?d)"
    using fst_snd by (auto simp: comp_def)
  then show "sorted (map f (map snd (sort_key fst ?d)))" by (simp del: map_map)
  fix k assume "k \<in> set (map snd (sort_key fst ?d))"
  have "filter (\<lambda>x. f k = f x) (map snd (sort_key fst ?d))
        = map snd (filter (\<lambda>p. f k = f (snd p)) (sort_key fst ?d))"
    by (simp add: filter_map comp_def)
  also have "filter (\<lambda>p. f k = f (snd p)) (sort_key fst ?d) = filter (\<lambda>p. f k = fst p) (sort_key fst ?d)"
    using fst_snd by (auto intro!: filter_cong)
  also have "\<dots> = filter (\<lambda>p. f k = fst p) ?d"
    using sort_key_stable [of fst "f k" ?d] by (simp add: eq_commute)
  also have "map snd \<dots> = filter (\<lambda>x. f k = f x) xs"
    by (simp add: d filter_map comp_def)
  finally show "filter (\<lambda>x. f k = f x) (map snd (sort_key fst ?d)) = filter (\<lambda>x. f k = f x) xs" .
qed

lemma sorted_rev_neg:
  fixes f :: "'a \<Rightarrow> real"
  shows "sorted (map f ys) \<Longrightarrow> sorted (map (\<lambda>x. - f x) (rev ys))"
  by (induction ys) (auto simp: sorted_append)

lemma rev_sort_key_rev:
  fixes f :: "'a \<Rightarrow> real"
  shows "rev (sort_key f (rev xs)) = sort_key (\<lambda>x. - f x) xs"
proof (rule properties_for_sort_key [symmetric])
  show "mset (rev (sort_key f (rev xs))) = mset xs" by simp
  have "sorted (map f (sort_key f (rev xs)))" by simp
  then show "sorted (map (\<lambda>x. - f x) (rev (sort_key f (rev xs))))"
    by (rule sorted_rev_neg)
  fix k
  have "filter (\<lambda>x. - f k = - f x) (rev (sort_key f (rev xs)))
         = rev (filter (\<lambda>x. f x = f k) (sort_key f (rev xs)))"
    by (simp add: rev_filter eq_commute)
  also have "\<dots> = rev (filter (\<lambda>x. f x = f k) (rev xs))"
    by (simp add: sort_key_stable)
  also have "\<dots> = filter (\<lambda>x. - f k = - f x) xs"
    by (simp add: rev_filter eq_commute)
  finally show "filter (\<lambda>x. - f k = - f x) (rev (sort_key f (rev xs))) = filter (\<lambda>x. - f k = - f x) xs" .
qed

lemma sorted_py_reverse:
  fixes f :: "'a \<Rightarrow> real"
  shows "sorted_py (<) (\<lambda>x. Inr (f x)) True xs = Inr (sort_key (\<lambda>x. - f x) xs)"
proof -
  have "rev (zip (map f xs) xs) = zip (map f (rev xs)) (rev xs)"
    by (simp add: zip_rev [symmetric] rev_map)
  then have "map snd (rev (sort_key fst (rev (zip (map f xs) xs)))) = rev (sort_key f (rev xs))"
    using sort_key_zip_keys [of f "rev xs"] by (simp add: rev_map [symmetric])
  then show ?thesis
    by (simp add: sorted_py_def map_keys_total and_then_def stable_sort_less rev_sort_key_rev)
qed

section \<open>Properties of rounding\<close>

lemma round_even_near:
  assumes "\<bar>z - of_int n\<bar> < 1 / 2"
  shows "round_even z = n"
proof (cases "of_int n \<le> z")
  case True
  then have f: "\<lfloor>z\<rfloor> = n" using assms by (intro floor_unique) auto
  show ?thesis using assms True by (simp add: round_even_def f Let_def)
next
  case False
  then have f: "\<lfloor>z\<rfloor> = n - 1" using assms by (intro floor_unique) auto
  show ?thesis using assms False by (simp add: round_even_def f Let_def)
qed

lemma round_even_of_int: "round_even (of_int n) = n"
  by (rule round_even_near) simp

lemma round_even_dist: "\<bar>of_int (round_even z) - z\<bar> \<le> 1 / 2"
proof -
  have "of_int \<lfloor>z\<rfloor> \<le> z" "z < of_int \<lfloor>z\<rfloor> + 1" by linarith+
  then show ?thesis by (auto simp: round_even_def Let_def)
qed

lemma rnd_0: "rnd 0 = 0"
  by (simp add: rnd_def)

lemma rnd_binade:
  assumes "2 powr (of_int k) \<le> \<bar>x\<bar>" and "\<bar>x\<bar> < 2 powr (of_int k + 1)"
  shows "rnd x = of_int (round_even (x / 2 powr (of_int (k - 52)))) * 2 powr (of_int (k - 52))"
proof -
  have "0 < (2 :: real) powr (of_int k)" by simp
  with assms(1) have pos: "0 < \<bar>x\<bar>" by linarith
  then have "x \<noteq> 0" by simp
  moreover have "\<lfloor>log 2 \<bar>x\<bar>\<rfloor> = k"
    using assms pos by (simp add: floor_log_eq_powr_iff)
  ultimately show ?thesis by (simp add: rnd_def Let_def)
qed

lemma two_powr_int_diff: "2 powr (of_int (int a - int K)) = (2 :: real) ^ a / 2 ^ K"
proof -
  have "2 powr (of_int (int a - int K)) = (2 :: real) powr (real a - real K)" by simp
  also have "\<dots> = 2 powr (real a) / 2 powr (real K)" by (rule powr_diff)
  also have "\<dots> = 2 ^ a / 2 ^ K" by (simp add: powr_realpow)
  finally show ?thesis .
qed

lemma rnd_scaled:
  assumes "2 ^ 52 \<le> \<bar>x * 2 ^ K\<bar>" and "\<bar>x * 2 ^ K\<bar> < 2 ^ 53"
  shows "rnd x = of_int (round_even (x * 2 ^ K)) / 2 ^ K"
proof -
  let ?k = "int 52 - int K"
  have p: "2 powr (of_int ?k) = (2 :: real) ^ 52 / 2 ^ K" by (rule two_powr_int_diff)
  have "of_int ?k + 1 = (of_int (int 53 - int K) :: real)" by simp
  then have q: "2 powr (of_int ?k + 1) = (2 :: real) ^ 53 / 2 ^ K"
    by (simp only: two_powr_int_diff)
  have a: "\<bar>x * 2 ^ K\<bar> = \<bar>x\<bar> * 2 ^ K" by (simp add: abs_mult)
  have 1: "2 powr (of_int ?k) \<le> \<bar>x\<bar>"
    using assms(1) unfolding p a by (simp add: field_simps)
  have 2: "\<bar>x\<bar> < 2 powr (of_int ?k + 1)"
    using assms(2) unfolding q a by (simp add: field_simps)
  have "?k - 52 = int 0 - int K" by simp
  then have e: "2 powr (of_int (?k - 52)) = (1 :: real) / 2 ^ K"
    using two_powr_int_diff [of 0 K] by simp
  show ?thesis using rnd_binade [OF 1 2] unfolding e by simp
qed

lemma rnd_near:
  assumes "2 ^ 52 < \<bar>n\<bar>" and "\<bar>n\<bar> < 2 ^ 53" and "\<bar>x * 2 ^ K - of_int n\<bar> < 1 / 2"
  shows "rnd x = of_int n / 2 ^ K"
proof -
  have r: "round_even (x * 2 ^ K) = n" using assms(3) by (rule round_even_near)
  have "2 ^ 52 + 1 \<le> \<bar>n\<bar>" using assms(1) by linarith
  then have "real_of_int (2 ^ 52 + 1) \<le> real_of_int \<bar>n\<bar>" by (simp only: of_int_le_iff)
  then have n1: "(2 ^ 52 + 1 :: real) \<le> \<bar>of_int n\<bar>" by simp
  have "\<bar>n\<bar> \<le> 2 ^ 53 - 1" using assms(2) by linarith
  then have "real_of_int \<bar>n\<bar> \<le> real_of_int (2 ^ 53 - 1)" by (simp only: of_int_le_iff)
  then have n2: "\<bar>of_int n :: real\<bar> \<le> 2 ^ 53 - 1" by simp
  have "2 ^ 52 \<le> \<bar>x * 2 ^ K\<bar>" "\<bar>x * 2 ^ K\<bar> < 2 ^ 53"
    using assms(3) n1 n2 by linarith+
  from rnd_scaled [OF this] r show ?thesis by simp
qed

lemma rnd_exact:
  assumes "2 ^ 52 \<le> \<bar>n\<bar>" and "\<bar>n\<bar> < 2 ^ 53" and "x * 2 ^ K = of_int n"
  shows "rnd x = x"
proof -
  have "real_of_int (2 ^ 52) \<le> real_of_int \<bar>n\<bar>" using assms(1) by (simp only: of_int_le_iff)
  then have "(2 ^ 52 :: real) \<le> \<bar>of_int n\<bar>" by simp
  moreover have "real_of_int \<bar>n\<bar> < real_of_int (2 ^ 53)"
    using assms(2) by (simp only: of_int_less_iff)
  then have "\<bar>of_int n :: real\<bar> < 2 ^ 53" by simp
  ultimately have "2 ^ 52 \<le> \<bar>x * 2 ^ K\<bar>" "\<bar>x * 2 ^ K\<bar> < 2 ^ 53"
    by (simp_all add: assms(3))
  from rnd_scaled [OF this] have "rnd x = of_int n / 2 ^ K"
    by (simp add: assms(3) round_even_of_int)
  also have "\<dots> = x" using assms(3) by (simp add: field_simps)
  finally show ?thesis .
qed

lemma rnd_eq_0_iff: "rnd x = 0 \<longleftrightarrow> x = 0"
proof
  assume r: "rnd x = 0"
  show "x = 0"
  proof (rule ccontr)
    assume x: "x \<noteq> 0"
    define e where "e = \<lfloor>log 2 \<bar>x\<bar>\<rfloor> - 52"
    define m where "m = x / 2 powr (of_int e)"
    have "rnd x = of_int (round_even m) * 2 powr (of_int e)"
      using x by (simp add: rnd_def Let_def e_def m_def)
    with r have z: "round_even m = 0" by simp
    have "2 powr (of_int \<lfloor>log 2 \<bar>x\<bar>\<rfloor>) \<le> \<bar>x\<bar>"
      using x floor_log_eq_powr_iff [of "\<bar>x\<bar>" 2 "\<lfloor>log 2 \<bar>x\<bar>\<rfloor>"] by simp
    moreover have "2 powr (of_int \<lfloor>log 2 \<bar>x\<bar>\<rfloor>) = 2 powr (of_int e) * (2 :: real) ^ 52"
    proof -
      have "of_int \<lfloor>log 2 \<bar>x\<bar>\<rfloor> = of_int e + real 52" by (simp add: e_def)
      then have "2 powr (of_int \<lfloor>log 2 \<bar>x\<bar>\<rfloor>) = 2 powr (of_int e) * 2 powr (real 52)"
        by (simp only: powr_add)
      then show ?thesis by (simp only: powr_realpow [of 2 52] zero_less_numeral)
    qed
    ultimately have "2 powr (of_int e) * 2 ^ 52 \<le> \<bar>x\<bar>" by simp
    then have "2 ^ 52 \<le> \<bar>m\<bar>"
      by (simp add: m_def abs_divide field_simps)
    moreover have "\<bar>m\<bar> \<le> 1 / 2" using round_even_dist [of m] z by simp
    ultimately show False by simp
  qed
next
  assume "x = 0"
  then show "rnd x = 0" by (simp add: rnd_0)
qed


lemma rnd_sqrt_near:
  assumes "2 ^ 52 < n" and "n < 2 ^ 53"
    and "(of_int n - 1 / 2)\<^sup>2 < q * 4 ^ K" and "q * 4 ^ K < (of_int n + 1 / 2)\<^sup>2"
  shows "rnd (sqrt q) = of_int n / 2 ^ K"
proof -
  have n0: "(0 :: real) < of_int n - 1 / 2"
  proof -
    have "(0 :: int) < 2 ^ 52" by simp
    with assms(1) have "1 \<le> n" by linarith
    then have "(1 :: real) \<le> of_int n" by linarith
    then show ?thesis by linarith
  qed
  have s: "sqrt (q * 4 ^ K) = sqrt q * 2 ^ K"
  proof -
    have "(4 :: real) ^ K = (2\<^sup>2) ^ K" by simp
    also have "\<dots> = (2 ^ K)\<^sup>2" by (simp only: power_mult [symmetric] mult.commute)
    finally have "(4 :: real) ^ K = (2 ^ K)\<^sup>2" .
    then show ?thesis by (simp add: real_sqrt_mult)
  qed
  have "sqrt ((of_int n - 1 / 2)\<^sup>2) < sqrt (q * 4 ^ K)"
    using assms(3) by (simp only: real_sqrt_less_iff)
  then have lo: "of_int n - 1 / 2 < sqrt q * 2 ^ K" using n0 by (simp add: s)
  have "sqrt (q * 4 ^ K) < sqrt ((of_int n + 1 / 2)\<^sup>2)"
    using assms(4) by (simp only: real_sqrt_less_iff)
  then have hi: "sqrt q * 2 ^ K < of_int n + 1 / 2" using n0 by (simp add: s)
  have "\<bar>sqrt q * 2 ^ K - of_int n\<bar> < 1 / 2" using lo hi by linarith
  moreover have "2 ^ 52 < \<bar>n\<bar>" "\<bar>n\<bar> < 2 ^ 53" using assms(1,2) by simp_all
  ultimately show ?thesis by (intro rnd_near)
qed

lemma binary64_fields:
  "np_radians binary64 x = rnd (x * deg2rad)"
  "np_subtract binary64 a b = rnd (a - b)"
  "np_dot binary64 = dot64"
  "linalg_norm binary64 u = rnd (sqrt (dot64 u u))"
  "np_multiply binary64 a b = rnd (a * b)"
  "np_divide binary64 a b = (if b = 0 then NaN else Fin (rnd (a / b)))"
  "acos_value binary64 r = rnd (arccos r)"
  "np_degrees binary64 r = rnd (r * rad2deg)"
  "contourArea binary64 = polygon_area"
  "approxPolyDP binary64 c0 eps cl = c0"
  "order_points binary64 pts = pts"
  by (simp_all add: binary64_def)

section \<open>Properties of the angle computation\<close>

lemma and_then_Inr: "and_then (Inr x) f = f x"
  by (simp add: and_then_def)

lemma and_then_Inl: "and_then (Inl e) f = Inl e"
  by (simp add: and_then_def)

lemma error_cases: "e = ValueError \<or> e = IndexError"
  by (cases e) simp_all

lemma math_acos_raises: "math_acos lib x = Inl e \<Longrightarrow> e = ValueError"
  by (cases x) (auto simp: math_acos_def split: if_splits)

lemma angle_between_raises: "angle_between_vectors_degrees lib u v = Inl e \<Longrightarrow> e = ValueError"
  by (auto simp: angle_between_vectors_degrees_def and_then_def split: sum.splits
      dest: math_acos_raises)

lemma get_angle_raises: "get_angle lib p1 p2 p3 = Inl e \<Longrightarrow> e = ValueError"
  by (auto simp: get_angle_def Let_def dest: angle_between_raises)

lemma get_angle_cases:
  obtains (raises) "get_angle lib p1 p2 p3 = Inl ValueError"
  | (returns) x where "get_angle lib p1 p2 p3 = Inr x"
proof (cases "get_angle lib p1 p2 p3")
  case (Inl e)
  with get_angle_raises [OF Inl] raises show ?thesis by simp
next
  case (Inr x)
  with returns show ?thesis by simp
qed

lemma np_ptp_4:
  "np_ptp lib [w, x, y, z] =
     Inr (fl_subtract lib (np_maximum (np_maximum (np_maximum w x) y) z)
                          (np_minimum (np_minimum (np_minimum w x) y) z))"
  by (simp add: np_ptp_def)

lemma np_ptp_raises: "np_ptp lib xs = Inl e \<Longrightarrow> e = ValueError"
  by (auto simp: np_ptp_def split: list.splits)

lemma angle_range_4:
  "angle_range lib [a, b, c, d] =
     and_then (get_angle lib a b c) (\<lambda>ura.
     and_then (get_angle lib d a b) (\<lambda>ula.
     and_then (get_angle lib b c d) (\<lambda>lra.
     and_then (get_angle lib c d a) (\<lambda>lla.
     np_ptp lib [ura, ula, lra, lla]))))"
  by (simp add: angle_range_def)

lemma angle_range_wrong_length: "length q \<noteq> 4 \<Longrightarrow> angle_range lib q = Inl ValueError"
  by (auto simp: angle_range_def split: list.splits)

lemma angle_range_raises: "angle_range lib q = Inl e \<Longrightarrow> e = ValueError"
proof (cases "length q = 4")
  case False
  assume "angle_range lib q = Inl e"
  with angle_range_wrong_length [OF False] show ?thesis by simp
next
  case True
  assume r: "angle_range lib q = Inl e"
  from True obtain a b c d where q: "q = [a, b, c, d]"
    by (auto simp: length_Suc_conv numeral_eq_Suc)
  from r show ?thesis
    unfolding q angle_range_4
    by (auto simp: and_then_def np_ptp_4 split: sum.splits dest: get_angle_raises)
qed

lemma np_maximum_commute: "np_maximum x y = np_maximum y x"
  by (cases x; cases y) (simp_all add: max.commute)

lemma np_maximum_assoc: "np_maximum (np_maximum x y) z = np_maximum x (np_maximum y z)"
  by (cases x; cases y; cases z) (simp_all add: max.assoc)

lemma np_maximum_left_commute: "np_maximum x (np_maximum y z) = np_maximum y (np_maximum x z)"
  by (cases x; cases y; cases z) (simp_all add: max.left_commute)

lemma np_minimum_commute: "np_minimum x y = np_minimum y x"
  by (cases x; cases y) (simp_all add: min.commute)

lemma np_minimum_assoc: "np_minimum (np_minimum x y) z = np_minimum x (np_minimum y z)"
  by (cases x; cases y; cases z) (simp_all add: min.assoc)

lemma np_minimum_left_commute: "np_minimum x (np_minimum y z) = np_minimum y (np_minimum x z)"
  by (cases x; cases y; cases z) (simp_all add: min.left_commute)

lemmas np_extrema_ac =
  np_maximum_commute np_maximum_assoc np_maximum_left_commute
  np_minimum_commute np_minimum_assoc np_minimum_left_commute

lemma angle_range_rotate: "angle_range lib [b, c, d, a] = angle_range lib [a, b, c, d]"
proof -
  show ?thesis
    unfolding angle_range_4
    by (cases rule: get_angle_cases [of lib a b c]; cases rule: get_angle_cases [of lib d a b];
        cases rule: get_angle_cases [of lib b c d]; cases rule: get_angle_cases [of lib c d a])
      (simp_all add: and_then_Inr and_then_Inl np_ptp_4 np_extrema_ac)
qed

subsection \<open>Arithmetic that does not round\<close>

lemma exact_fields:
  "np_radians (exact_arithmetic lib) x = x * pi / 180"
  "np_subtract (exact_arithmetic lib) a b = a - b"
  "np_dot (exact_arithmetic lib) = dot"
  "linalg_norm (exact_arithmetic lib) = vnorm"
  "np_multiply (exact_arithmetic lib) a b = a * b"
  "np_divide (exact_arithmetic lib) a b = (if b = 0 then NaN else Fin (a / b))"
  "acos_value (exact_arithmetic lib) = arccos"
  "np_degrees (exact_arithmetic lib) r = r * 180 / pi"
  "contourArea (exact_arithmetic lib) = contourArea lib"
  "approxPolyDP (exact_arithmetic lib) = approxPolyDP lib"
  "order_points (exact_arithmetic lib) = order_points lib"
  by (simp_all add: exact_arithmetic_def)

lemma vnorm_eq_0: "vnorm u = 0 \<longleftrightarrow> u = (0, 0)"
  by (cases u) (simp add: vnorm_def sum_power2_eq_zero_iff)

lemma vnorm_nonneg: "0 \<le> vnorm u"
  by (simp add: vnorm_def)

lemma cauchy_schwarz: "\<bar>dot u v\<bar> \<le> vnorm u * vnorm v"
proof -
  obtain a b where u: "u = (a, b)" by (cases u)
  obtain c d where v: "v = (c, d)" by (cases v)
  have "(a * c + b * d)\<^sup>2 + (a * d - b * c)\<^sup>2 = (a\<^sup>2 + b\<^sup>2) * (c\<^sup>2 + d\<^sup>2)"
    by (simp add: power2_eq_square algebra_simps)
  then have "(a * c + b * d)\<^sup>2 \<le> (a\<^sup>2 + b\<^sup>2) * (c\<^sup>2 + d\<^sup>2)"
    by (metis le_add_same_cancel1 zero_le_power2)
  then have "sqrt ((a * c + b * d)\<^sup>2) \<le> sqrt ((a\<^sup>2 + b\<^sup>2) * (c\<^sup>2 + d\<^sup>2))"
    by (simp only: real_sqrt_le_iff)
  then show ?thesis
    by (simp add: u v dot_def vnorm_def real_sqrt_mult)
qed

lemma cos_arg_in_range:
  assumes "vnorm u * vnorm v \<noteq> 0"
  shows "- 1 \<le> dot u v / (vnorm u * vnorm v)"
    and "dot u v / (vnorm u * vnorm v) \<le> 1"
proof -
  let ?n = "vnorm u * vnorm v"
  have n: "0 < ?n" using assms vnorm_nonneg [of u] vnorm_nonneg [of v]
    by (metis less_eq_real_def mult_nonneg_nonneg)
  have "\<bar>dot u v\<bar> \<le> ?n" by (rule cauchy_schwarz)
  then have "- ?n \<le> dot u v" "dot u v \<le> ?n" by linarith+
  then show "- 1 \<le> dot u v / ?n" "dot u v / ?n \<le> 1"
    using n by (simp_all add: pos_le_divide_eq pos_divide_le_eq)
qed

lemma exact_angle_between:
  "angle_between_vectors_degrees (exact_arithmetic lib) u v =
     Inr (if vnorm u * vnorm v = 0 then NaN
          else Fin (arccos (dot u v / (vnorm u * vnorm v)) * 180 / pi))"
proof (cases "vnorm u * vnorm v = 0")
  case True
  then show ?thesis
    by (simp add: angle_between_vectors_degrees_def exact_fields math_acos_def
        and_then_def degrees_def)
next
  case False
  from cos_arg_in_range [OF False] False show ?thesis
    by (simp add: angle_between_vectors_degrees_def exact_fields math_acos_def
        and_then_def degrees_def)
qed

lemma dot_vscale: "dot (vscale k u) (vscale k v) = k\<^sup>2 * dot u v"
  by (simp add: dot_def vscale_def power2_eq_square algebra_simps)

lemma vnorm_vscale: "vnorm (vscale k u) = \<bar>k\<bar> * vnorm u"
proof -
  have "(k * fst u)\<^sup>2 + (k * snd u)\<^sup>2 = k\<^sup>2 * ((fst u)\<^sup>2 + (snd u)\<^sup>2)"
    by (simp add: power2_eq_square algebra_simps)
  then show ?thesis
    by (simp add: vnorm_def vscale_def real_sqrt_mult)
qed

lemma exact_angle_scale_invariant:
  assumes "k \<noteq> 0"
  shows "angle_between_vectors_degrees (exact_arithmetic lib) (vscale k u) (vscale k v)
           = angle_between_vectors_degrees (exact_arithmetic lib) u v"
proof -
  let ?n = "vnorm u * vnorm v"
  have n: "vnorm (vscale k u) * vnorm (vscale k v) = k\<^sup>2 * ?n"
    by (simp add: vnorm_vscale power2_eq_square)
  have k2: "k\<^sup>2 \<noteq> 0" using assms by simp
  have "dot (vscale k u) (vscale k v) / (k\<^sup>2 * ?n) = dot u v / ?n"
    using k2 by (simp add: dot_vscale)
  then show ?thesis using k2
    by (simp add: exact_angle_between n)
qed

lemma exact_radians: "radians (exact_arithmetic lib) p = vscale (pi / 180) (vec_of p)"
  by (simp add: radians_def exact_fields vscale_def vec_of_def)

lemma exact_vsub: "vsub (exact_arithmetic lib) a b = vdiff a b"
  by (simp add: vsub_def vdiff_def exact_fields)

lemma vdiff_vscale: "vdiff (vscale k a) (vscale k b) = vscale k (vdiff a b)"
  by (simp add: vdiff_def vscale_def algebra_simps)

lemma exact_get_angle:
  "get_angle (exact_arithmetic lib) p1 p2 p3 =
     angle_between_vectors_degrees (exact_arithmetic lib)
       (vdiff (vec_of p1) (vec_of p2)) (vdiff (vec_of p3) (vec_of p2))"
  by (simp add: get_angle_def exact_radians exact_vsub vdiff_vscale exact_angle_scale_invariant)

lemma vdiff_vec_of_eq_0: "vdiff (vec_of p) (vec_of q) = (0, 0) \<longleftrightarrow> p = q"
  by (cases p; cases q) (simp add: vdiff_def vec_of_def)

lemma exact_get_angle_angle_at:
  "get_angle (exact_arithmetic lib) p1 p2 p3 = Inr (angle_at p1 p2 p3)"
  by (auto simp: exact_get_angle exact_angle_between angle_at_def Let_def
      vnorm_eq_0 vdiff_vec_of_eq_0)

section \<open>Properties of the selection\<close>

lemma is_valid_contour_True:
  "is_valid_contour self lib cnt W H = Inr True \<longleftrightarrow> valid_quad self lib W H cnt"
proof (cases "angle_range lib cnt")
  case (Inl e)
  then show ?thesis by (simp add: is_valid_contour_def valid_quad_def and_then_Inl)
next
  case (Inr k)
  then show ?thesis
    by (cases k) (auto simp: is_valid_contour_def valid_quad_def and_then_Inr)
qed

lemma is_valid_contour_Inr:
  "is_valid_contour self lib cnt W H = Inr ok \<Longrightarrow> ok = valid_quad self lib W H cnt"
  using is_valid_contour_True [of self lib cnt W H] by (cases ok) auto


lemma is_valid_contour_raises_iff:
  "is_valid_contour self lib cnt W H = Inl e \<longleftrightarrow>
     length cnt = 4
     \<and> contourArea lib cnt > np_multiply lib (real_of_int (W * H)) (MIN_QUAD_AREA_RATIO self)
     \<and> angle_range lib cnt = Inl e"
  by (cases "angle_range lib cnt")
    (auto simp: is_valid_contour_def and_then_Inr and_then_Inl)

lemma contour_loop_skip:
  assumes "\<forall>p \<in> set pre. is_valid_contour self lib (approxPolyDP lib p 80 True) W H = Inr False"
  shows "contour_loop self lib W H (pre @ rest) acc = contour_loop self lib W H rest acc"
  using assms by (induction pre) (simp_all add: Let_def)

lemma contour_loop_hit:
  assumes "is_valid_contour self lib (approxPolyDP lib c 80 True) W H = Inr True"
  shows "contour_loop self lib W H (c # rest) acc = Inr (acc @ [approxPolyDP lib c 80 True])"
  using assms by (simp add: Let_def)

lemma contour_loop_raise:
  assumes "is_valid_contour self lib (approxPolyDP lib c 80 True) W H = Inl e"
  shows "contour_loop self lib W H (c # rest) acc = Inl e"
  using assms by (simp add: Let_def)

lemma contour_loop_acc:
  "contour_loop self lib W H cs acc =
     (case contour_loop self lib W H cs [] of Inl e \<Rightarrow> Inl e | Inr B \<Rightarrow> Inr (acc @ B))"
proof (induction cs)
  case Nil
  show ?case by simp
next
  case (Cons c cs)
  show ?case
  proof (cases "is_valid_contour self lib (approxPolyDP lib c 80 True) W H")
    case (Inl e)
    then show ?thesis by (simp add: Let_def)
  next
    case (Inr ok)
    then show ?thesis using Cons.IH by (cases ok) (simp_all add: Let_def)
  qed
qed

lemma contour_loop_shape:
  assumes "contour_loop self lib W H cs [] = Inr B"
  shows "B = [] \<or> (\<exists>b. B = [b] \<and> valid_quad self lib W H b)"
  using assms
proof (induction cs)
  case Nil
  then show ?case by simp
next
  case (Cons c cs)
  show ?case
  proof (cases "is_valid_contour self lib (approxPolyDP lib c 80 True) W H")
    case (Inl e)
    with Cons.prems show ?thesis by (simp add: Let_def)
  next
    case (Inr ok)
    show ?thesis
    proof (cases ok)
      case True
      with Inr have "valid_quad self lib W H (approxPolyDP lib c 80 True)"
        by (simp add: is_valid_contour_True)
      moreover from Inr True Cons.prems have "B = [approxPolyDP lib c 80 True]"
        by (simp add: Let_def)
      ultimately show ?thesis by simp
    next
      case False
      with Inr Cons.prems have "contour_loop self lib W H cs [] = Inr B"
        by (simp add: Let_def)
      then show ?thesis by (rule Cons.IH)
    qed
  qed
qed

lemma contour_path_eq:
  "contour_path self lib W H cnts = contour_loop self lib W H (largest5 lib cnts) []"
  by (simp add: contour_path_def sorted_py_reverse and_then_Inr largest5_def)

lemma contour_path_shape:
  assumes "contour_path self lib W H cnts = Inr B"
  shows "B = [] \<or> (\<exists>b. B = [b] \<and> valid_quad self lib W H b)"
  using assms unfolding contour_path_eq by (rule contour_loop_shape)

lemma corner_path_shape:
  assumes "corner_path self lib W H cs = Inr A"
  shows "A = [] \<or> (\<exists>a. A = [a] \<and> valid_quad self lib W H a)"
proof (cases "4 \<le> length cs")
  case False
  with assms show ?thesis by (simp add: corner_path_def)
next
  case True
  let ?top = "largest5 lib (map (order_points lib) (combinations cs 4))"
  have s1: "sorted_py (<) (\<lambda>q. Inr (contourArea lib q)) True
              (map (order_points lib) (combinations cs 4))
            = Inr (sort_key (\<lambda>c. - contourArea lib c) (map (order_points lib) (combinations cs 4)))"
    by (rule sorted_py_reverse)
  show ?thesis
  proof (cases "sorted_py py_lt (angle_range lib) False ?top")
    case (Inl e)
    with assms True show ?thesis
      by (simp add: corner_path_def s1 and_then_Inr and_then_Inl Let_def largest5_def)
  next
    case (Inr qs)
    show ?thesis
    proof (cases qs)
      case Nil
      with assms True Inr show ?thesis
        by (simp add: corner_path_def s1 and_then_Inr Let_def largest5_def)
    next
      case (Cons q qs')
      show ?thesis
      proof (cases "is_valid_contour self lib q W H")
        case (Inl e)
        with assms True Inr Cons show ?thesis
          by (simp add: corner_path_def s1 and_then_Inr and_then_Inl Let_def largest5_def)
      next
        case ok: (Inr ok)
        then have "ok = valid_quad self lib W H q" by (rule is_valid_contour_Inr)
        with assms True Inr Cons ok show ?thesis
          by (auto simp: corner_path_def s1 and_then_Inr Let_def largest5_def)
      qed
    qed
  qed
qed

lemma get_contour_merge:
  assumes "corner_path self lib W H cs = Inr A"
    and "contour_path self lib W H cnts = Inr B"
  shows "get_contour self lib W H cs cnts =
           (if A @ B = [] then Inr (whole_image W H, False)
            else and_then (max_py (contourArea lib) (A @ B)) (\<lambda>s.
                 and_then (reshape_4_2 s) (\<lambda>r. Inr (r, True))))"
proof -
  from assms(2) have B: "contour_loop self lib W H (largest5 lib cnts) [] = Inr B"
    by (simp add: contour_path_eq)
  have loop: "contour_loop self lib W H (take 5 (sort_key (\<lambda>c. - contourArea lib c) cnts)) A
               = Inr (A @ B)"
    using contour_loop_acc [of self lib W H "largest5 lib cnts" A] B
    by (simp add: largest5_def)
  have sorted: "sorted_py (<) (\<lambda>c. Inr (contourArea lib c)) True cnts
                 = Inr (sort_key (\<lambda>c. - contourArea lib c) cnts)"
    by (rule sorted_py_reverse)
  show ?thesis
  proof (cases "A @ B = []")
    case True
    with loop assms(1) show ?thesis
      by (simp add: get_contour_def sorted and_then_Inr
          Let_def whole_image_def reshape_4_2_def)
  next
    case False
    then show ?thesis
      by (auto simp: get_contour_def sorted assms(1) loop and_then_Inr Let_def)
  qed
qed

lemma get_contour_corner_raises:
  assumes "corner_path self lib W H cs = Inl e"
  shows "get_contour self lib W H cs cnts = Inl e"
  by (simp add: get_contour_def assms and_then_Inl)


lemma valid_quad_length: "valid_quad self lib W H c \<Longrightarrow> length c = 4"
  by (simp add: valid_quad_def)

lemma corner_path_few: "length cs < 4 \<Longrightarrow> corner_path self lib W H cs = Inr []"
  by (simp add: corner_path_def)

section \<open>Properties of the largest five\<close>

lemma largest5_length: "length (largest5 lib cs) = min 5 (length cs)"
  by (simp add: largest5_def min.commute)

lemma largest5_split:
  "mset (largest5 lib cs) + mset (drop 5 (sort_key (\<lambda>c. - contourArea lib c) cs)) = mset cs"
  unfolding largest5_def
  by (simp only: mset_append [symmetric] append_take_drop_id mset_sort)

lemma largest5_subset: "mset (largest5 lib cs) \<subseteq># mset cs"
  using largest5_split [of lib cs] by (metis mset_subset_eq_add_left)

lemma largest5_rest:
  "mset cs - mset (largest5 lib cs) = mset (drop 5 (sort_key (\<lambda>c. - contourArea lib c) cs))"
  using largest5_split [of lib cs] by (metis add_diff_cancel_left')

lemma sorted_desc:
  "sorted_wrt (\<lambda>c d. contourArea lib c \<ge> contourArea lib d) (sort_key (\<lambda>c. - contourArea lib c) cs)"
proof -
  have "sorted (map (\<lambda>c. - contourArea lib c) (sort_key (\<lambda>c. - contourArea lib c) cs))"
    by simp
  then show ?thesis by (simp add: sorted_map del: sorted_sort_key)
qed

lemma largest5_sorted:
  "sorted_wrt (\<lambda>c d. contourArea lib c \<ge> contourArea lib d) (largest5 lib cs)"
  using sorted_desc [of lib cs] unfolding largest5_def by (rule sorted_wrt_take)

lemma largest5_dominates:
  assumes "c \<in># mset cs - mset (largest5 lib cs)" and "d \<in> set (largest5 lib cs)"
  shows "contourArea lib c \<le> contourArea lib d"
proof -
  let ?s = "sort_key (\<lambda>c. - contourArea lib c) cs"
  have "sorted_wrt (\<lambda>c d. contourArea lib c \<ge> contourArea lib d) (take 5 ?s @ drop 5 ?s)"
    using sorted_desc [of lib cs] by simp
  moreover have "c \<in> set (drop 5 ?s)" using assms(1) by (simp add: largest5_rest)
  moreover have "d \<in> set (take 5 ?s)" using assms(2) by (simp add: largest5_def)
  ultimately show ?thesis unfolding sorted_wrt_append by blast
qed

section \<open>Properties of the corner path\<close>

lemma combinations_subseqs:
  "combinations xs r = filter (\<lambda>ys. length ys = r) (subseqs xs)"
proof (induction xs r rule: combinations.induct)
  case (1 xs)
  then show ?case
  proof (induction xs)
    case Nil
    then show ?case by simp
  next
    case (Cons x xs)
    then show ?case by (simp add: Let_def filter_map comp_def)
  qed
next
  case (2 r)
  then show ?case by simp
next
  case (3 x xs r)
  then show ?case by (simp add: Let_def filter_map comp_def)
qed

lemma set_combinations: "set (combinations xs r) = {ys. subseq ys xs \<and> length ys = r}"
  by (auto simp: combinations_subseqs set_subseqs_eq)

lemma length_combinations: "length (combinations xs r) = length xs choose r"
  by (induction xs r rule: combinations.induct) simp_all

lemma combinations_distinct:
  "distinct xs \<Longrightarrow> ps \<in> set (combinations xs r) \<Longrightarrow> distinct ps \<and> length ps = r"
proof -
  assume d: "distinct xs" and p: "ps \<in> set (combinations xs r)"
  from p have "ps \<in> set (filter (\<lambda>ys. length ys = r) (subseqs xs))"
    by (simp only: combinations_subseqs)
  then have "ps \<in> set (subseqs xs)" and l: "length ps = r"
    by (simp_all only: set_filter mem_Collect_eq)
  from subseqs_distinctD [OF this(1) d] l show ?thesis by simp
qed

lemma insort_key_map:
  "insort_key F (g x) (map g ys) = map g (insort_key (\<lambda>a. F (g a)) x ys)"
  by (induction ys) simp_all

lemma sort_key_map: "sort_key F (map g xs) = map g (sort_key (\<lambda>a. F (g a)) xs)"
  by (induction xs) (simp_all add: insort_key_map)

lemma insort_lt_fin:
  assumes "fst x \<noteq> NaN" and "\<forall>y \<in> set ys. fst y \<noteq> NaN"
  shows "insort_lt py_lt x ys = insort_key (\<lambda>p. fin_val (fst p)) x ys"
  using assms
proof (induction ys)
  case Nil
  then show ?case by simp
next
  case (Cons y ys)
  obtain a where a: "fst x = Fin a" using Cons.prems(1) by (cases "fst x") auto
  obtain b where b: "fst y = Fin b" using Cons.prems(2) by (cases "fst y") auto
  show ?case using Cons a b by auto
qed

lemma set_insort_lt: "set (insort_lt lt x ys) = insert x (set ys)"
  by (induction ys) auto

lemma set_stable_sort: "set (stable_sort lt kxs) = set kxs"
  by (induction kxs) (simp_all add: stable_sort_def set_insort_lt)

lemma stable_sort_fin:
  assumes "\<forall>y \<in> set kxs. fst y \<noteq> NaN"
  shows "stable_sort py_lt kxs = sort_key (\<lambda>p. fin_val (fst p)) kxs"
  using assms
proof (induction kxs)
  case Nil
  then show ?case by (simp add: stable_sort_def)
next
  case (Cons x kxs)
  then have "stable_sort py_lt kxs = sort_key (\<lambda>p. fin_val (fst p)) kxs" by simp
  moreover have "\<forall>y \<in> set (stable_sort py_lt kxs). fst y \<noteq> NaN"
    using Cons.prems by (simp add: set_stable_sort)
  ultimately show ?case
    using Cons.prems insort_lt_fin [of x "stable_sort py_lt kxs"]
    by (simp add: stable_sort_def)
qed

lemma map_keys_angle_range:
  assumes "\<forall>q \<in> set qs. \<exists>r. angle_range lib q = Inr (Fin r)"
  shows "map_keys (angle_range lib) qs = Inr (map (\<lambda>q. Fin (angle_range_val lib q)) qs)"
  using assms by (induction qs) (auto simp: angle_range_val_def)

lemma sorted_py_angle_range:
  assumes "\<forall>q \<in> set qs. \<exists>r. angle_range lib q = Inr (Fin r)"
  shows "sorted_py py_lt (angle_range lib) False qs = Inr (sort_key (angle_range_val lib) qs)"
proof -
  let ?g = "\<lambda>q. (Fin (angle_range_val lib q), q)"
  have z: "zip (map (\<lambda>q. Fin (angle_range_val lib q)) qs) qs = map ?g qs"
    by (induction qs) simp_all
  have "stable_sort py_lt (map ?g qs) = sort_key (\<lambda>p. fin_val (fst p)) (map ?g qs)"
    by (rule stable_sort_fin) auto
  also have "\<dots> = map ?g (sort_key (angle_range_val lib) qs)"
    by (simp add: sort_key_map comp_def)
  finally have "map snd (stable_sort py_lt (map ?g qs)) = sort_key (angle_range_val lib) qs"
    by (simp add: comp_def)
  then show ?thesis
    by (simp add: sorted_py_def map_keys_angle_range [OF assms] and_then_Inr z)
qed

lemma hd_sort_key_first_min:
  fixes f :: "'a \<Rightarrow> real"
  assumes "xs \<noteq> []"
  shows "\<exists>pre post. xs = pre @ hd (sort_key f xs) # post
           \<and> (\<forall>y \<in> set pre. f (hd (sort_key f xs)) < f y)
           \<and> (\<forall>y \<in> set post. f (hd (sort_key f xs)) \<le> f y)"
  using assms
proof (induction xs)
  case Nil
  then show ?case by simp
next
  case (Cons x xs)
  show ?case
  proof (cases "xs = []")
    case True
    then show ?thesis by (auto intro: exI [of _ "[]"])
  next
    case False
    let ?m = "hd (sort_key f xs)"
    from Cons.IH [OF False] obtain pre post where
      p: "xs = pre @ ?m # post" "\<forall>y \<in> set pre. f ?m < f y" "\<forall>y \<in> set post. f ?m \<le> f y"
      by blast
    have ne: "sort_key f xs \<noteq> []" using False by (metis length_0_conv length_sort)
    then obtain m ms where ms: "sort_key f xs = m # ms" by (cases "sort_key f xs") auto
    have all: "\<forall>y \<in> set xs. f ?m \<le> f y"
    proof
      fix y assume "y \<in> set xs"
      then have "y \<in> set pre \<or> y = ?m \<or> y \<in> set post" using p(1) 
        by (metis Un_iff set_ConsD set_append)
      then show "f ?m \<le> f y" using p(2,3) by fastforce
    qed
    show ?thesis
    proof (cases "f x \<le> f ?m")
      case True
      then have h: "hd (sort_key f (x # xs)) = x" using ms by simp
      have "\<forall>y \<in> set xs. f x \<le> f y" using True all by fastforce
      then show ?thesis unfolding h by (intro exI [of _ "[]"] exI [of _ xs]) simp
    next
      case False
      then have h: "hd (sort_key f (x # xs)) = ?m" using ms by simp
      have "x # xs = (x # pre) @ ?m # post" using p(1) by simp
      moreover have "\<forall>y \<in> set (x # pre). f ?m < f y" using p(2) False by simp
      ultimately show ?thesis unfolding h using p(3) by blast
    qed
  qed
qed

lemma combinations_nonempty: "r \<le> length xs \<Longrightarrow> combinations xs r \<noteq> []"
proof -
  assume "r \<le> length xs"
  then have "0 < length xs choose r" by simp
  then show ?thesis by (metis length_combinations length_0_conv less_numeral_extra(3))
qed

lemma largest5_nonempty: "qs \<noteq> [] \<Longrightarrow> largest5 lib qs \<noteq> []"
  by (cases qs) (auto simp: largest5_def dest!: arg_cong [where f = length])


lemma angle_range_val_fin: "angle_range lib q = Inr (Fin r) \<Longrightarrow> angle_range_val lib q = r"
  by (simp add: angle_range_val_def)

lemma map_keys_raises:
  assumes "q \<in> set qs" and "angle_range lib q = Inl ValueError"
  shows "map_keys (angle_range lib) qs = Inl ValueError"
  using assms
proof (induction qs)
  case Nil
  then show ?case by simp
next
  case (Cons x xs)
  show ?case
  proof (cases "angle_range lib x")
    case (Inl e)
    then show ?thesis using angle_range_raises [OF Inl] by simp
  next
    case (Inr k)
    then have "q \<in> set xs" using Cons.prems by auto
    then show ?thesis using Cons.IH Cons.prems(2) Inr by simp
  qed
qed

lemma corner_path_raises:
  assumes "4 \<le> length cs"
    and "q \<in> set (largest5 lib (map (order_points lib) (combinations cs 4)))"
    and "angle_range lib q = Inl ValueError"
  shows "corner_path self lib W H cs = Inl ValueError"
proof -
  let ?top = "largest5 lib (map (order_points lib) (combinations cs 4))"
  have s1: "sorted_py (<) (\<lambda>q. Inr (contourArea lib q)) True
              (map (order_points lib) (combinations cs 4))
            = Inr (sort_key (\<lambda>c. - contourArea lib c) (map (order_points lib) (combinations cs 4)))"
    by (rule sorted_py_reverse)
  have "sorted_py py_lt (angle_range lib) False ?top = Inl ValueError"
    by (simp add: sorted_py_def map_keys_raises [OF assms(2,3)] and_then_Inl)
  then show c: "corner_path self lib W H cs = Inl ValueError"
    using assms(1)
    by (simp add: corner_path_def s1 and_then_Inr and_then_Inl Let_def largest5_def [symmetric])
qed

lemma corner_path_eq:
  assumes "4 \<le> length cs"
    and "\<forall>q \<in> set (largest5 lib (map (order_points lib) (combinations cs 4))).
           \<exists>r. angle_range lib q = Inr (Fin r)"
  shows "corner_path self lib W H cs =
           Inr (let best = hd (sort_key (angle_range_val lib)
                                (largest5 lib (map (order_points lib) (combinations cs 4))))
                in if valid_quad self lib W H best then [best] else [])"
proof -
  let ?top = "largest5 lib (map (order_points lib) (combinations cs 4))"
  have "map (order_points lib) (combinations cs 4) \<noteq> []"
    using combinations_nonempty [OF assms(1)] by simp
  then have ne: "?top \<noteq> []" by (rule largest5_nonempty)
  then have "sort_key (angle_range_val lib) ?top \<noteq> []"
    by (metis length_0_conv length_sort)
  then obtain b bs where bs: "sort_key (angle_range_val lib) ?top = b # bs"
    by (cases "sort_key (angle_range_val lib) ?top") auto
  have "b \<in> set (sort_key (angle_range_val lib) ?top)" by (simp add: bs)
  then have "b \<in> set ?top" by (simp only: set_sort)
  then obtain r where r: "angle_range lib b = Inr (Fin r)" using assms(2) by blast
  have v: "is_valid_contour self lib b W H = Inr (valid_quad self lib W H b)"
    by (cases "r < MAX_QUAD_ANGLE_RANGE self")
      (simp_all add: is_valid_contour_def valid_quad_def r and_then_Inr)
  have s1: "sorted_py (<) (\<lambda>q. Inr (contourArea lib q)) True
              (map (order_points lib) (combinations cs 4))
            = Inr (sort_key (\<lambda>c. - contourArea lib c) (map (order_points lib) (combinations cs 4)))"
    by (rule sorted_py_reverse)
  have s2: "sorted_py py_lt (angle_range lib) False ?top = Inr (b # bs)"
    using sorted_py_angle_range [OF assms(2)] bs by simp
  show ?thesis
    using assms(1)
    by (simp add: corner_path_def s1 and_then_Inr Let_def largest5_def [symmetric] s2 bs v)
qed

section \<open>Properties of the arithmetic of doubles\<close>









lemma round_even_nonneg: "0 \<le> z \<Longrightarrow> 0 \<le> round_even z"
  by (auto simp: round_even_def Let_def)

lemma rnd_nonneg: "0 \<le> x \<Longrightarrow> 0 \<le> rnd x"
  by (simp add: rnd_def Let_def round_even_nonneg)

lemma dot64_self_eq_0: "dot64 u u = 0 \<longleftrightarrow> u = (0, 0)"
proof -
  obtain a b where u: "u = (a, b)" by (cases u)
  have "0 \<le> rnd (a * a)" "0 \<le> rnd (b * b)" by (simp_all add: rnd_nonneg)
  then have "rnd (a * a) + rnd (b * b) = 0 \<longleftrightarrow> rnd (a * a) = 0 \<and> rnd (b * b) = 0"
    by linarith
  then show ?thesis by (simp add: u dot64_def rnd_eq_0_iff)
qed

lemma norm64_eq_0: "linalg_norm binary64 u = 0 \<longleftrightarrow> u = (0, 0)"
  by (simp add: binary64_fields rnd_eq_0_iff dot64_self_eq_0)

lemma dot64_zero: "dot64 (0, 0) v = 0" "dot64 u (0, 0) = 0"
  by (simp_all add: dot64_def rnd_0)

lemma binary64_zero_divisor:
  assumes "np_multiply binary64 (linalg_norm binary64 u) (linalg_norm binary64 v) = 0"
  shows "np_dot binary64 u v = 0"
proof -
  from assms have "linalg_norm binary64 u * linalg_norm binary64 v = 0"
    by (simp add: binary64_fields(5) rnd_eq_0_iff)
  then have "u = (0, 0) \<or> v = (0, 0)" by (simp add: norm64_eq_0)
  then show ?thesis by (auto simp: binary64_fields(3) dot64_zero)
qed




text \<open>The float that the program holds for a right angle.\<close>

lemma angle_between_axes:
  assumes "a \<noteq> 0" and "b \<noteq> 0"
  shows "angle_between_vectors_degrees binary64 (a, 0) (0, b)
           = Inr (Fin (rnd (rnd (arccos 0) * rad2deg)))"
    and "angle_between_vectors_degrees binary64 (0, a) (b, 0)
           = Inr (Fin (rnd (rnd (arccos 0) * rad2deg)))"
proof -
  have n: "linalg_norm binary64 (a, 0) \<noteq> 0" "linalg_norm binary64 (0, b) \<noteq> 0"
    "linalg_norm binary64 (0, a) \<noteq> 0" "linalg_norm binary64 (b, 0) \<noteq> 0"
    using assms by (simp_all add: norm64_eq_0)
  then have m: "np_multiply binary64 (linalg_norm binary64 (a, 0)) (linalg_norm binary64 (0, b)) \<noteq> 0"
    "np_multiply binary64 (linalg_norm binary64 (0, a)) (linalg_norm binary64 (b, 0)) \<noteq> 0"
    by (simp_all add: binary64_fields(5) rnd_eq_0_iff)
  have d: "np_dot binary64 (a, 0) (0, b) = 0" "np_dot binary64 (0, a) (b, 0) = 0"
    by (simp_all add: binary64_fields(3) dot64_def rnd_0)
  show "angle_between_vectors_degrees binary64 (a, 0) (0, b)
           = Inr (Fin (rnd (rnd (arccos 0) * rad2deg)))"
    using m(1)
    by (simp add: angle_between_vectors_degrees_def d binary64_fields(6,7,8) rnd_0
        math_acos_def and_then_Inr degrees_def)
  show "angle_between_vectors_degrees binary64 (0, a) (b, 0)
           = Inr (Fin (rnd (rnd (arccos 0) * rad2deg)))"
    using m(2)
    by (simp add: angle_between_vectors_degrees_def d binary64_fields(6,7,8) rnd_0
        math_acos_def and_then_Inr degrees_def)
qed

lemma radians64_0: "np_radians binary64 0 = 0"
  by (simp add: binary64_fields rnd_0)

lemma radians64_eq_0: "np_radians binary64 (real_of_int n) = 0 \<longleftrightarrow> n = 0"
  by (simp add: binary64_fields rnd_eq_0_iff deg2rad_def)

lemma sub64_0: "np_subtract binary64 0 0 = 0"
  "np_subtract binary64 x x = 0"
  "np_subtract binary64 x 0 = 0 \<longleftrightarrow> x = 0"
  "np_subtract binary64 0 x = 0 \<longleftrightarrow> x = 0"
  by (simp_all add: binary64_fields rnd_0 rnd_eq_0_iff)

lemma rectangle_right_angles:
  assumes "w \<noteq> 0" and "h \<noteq> 0"
  shows "get_angle binary64 (0, 0) (w, 0) (w, h) = Inr (Fin (rnd (rnd (arccos 0) * rad2deg)))"
    and "get_angle binary64 (0, h) (0, 0) (w, 0) = Inr (Fin (rnd (rnd (arccos 0) * rad2deg)))"
    and "get_angle binary64 (w, 0) (w, h) (0, h) = Inr (Fin (rnd (rnd (arccos 0) * rad2deg)))"
    and "get_angle binary64 (w, h) (0, h) (0, 0) = Inr (Fin (rnd (rnd (arccos 0) * rad2deg)))"
  using assms
  by (simp_all add: get_angle_def Let_def radians_def vsub_def radians64_0 sub64_0
      radians64_eq_0 angle_between_axes)

lemma rectangle_angle_range:
  assumes "w \<noteq> 0" and "h \<noteq> 0"
  shows "angle_range binary64 [(0, 0), (w, 0), (w, h), (0, h)] = Inr (Fin 0)"
  by (simp add: angle_range_4 rectangle_right_angles [OF assms] and_then_Inr np_ptp_4
      binary64_fields(2) rnd_0)

lemma rectangle_area:
  assumes "x0 \<le> x1" and "y0 \<le> y1"
  shows "polygon_area [(x0, y0), (x1, y0), (x1, y1), (x0, y1)] = real_of_int ((x1 - x0) * (y1 - y0))"
proof -
  define k where "k = (x1 - x0) * (y1 - y0)"
  have "shoelace (x0, y0) [(x0, y0), (x1, y0), (x1, y1), (x0, y1)] = 2 * k"
    by (simp add: k_def algebra_simps)
  moreover have "0 \<le> k" using assms by (simp add: k_def)
  ultimately have "polygon_area [(x0, y0), (x1, y0), (x1, y1), (x0, y1)] = real_of_int k"
    by (simp add: polygon_area_def)
  then show ?thesis by (simp only: k_def)
qed

lemma threshold_250000: "np_multiply binary64 (real_of_int (1000 * 1000)) (MIN_QUAD_AREA_RATIO default_scanner) = 250000"
proof -
  have "rnd 250000 = 250000"
    by (rule rnd_exact [where n = "250000 * 2 ^ 35" and K = 35]) simp_all
  then show ?thesis by (simp add: binary64_fields default_scanner_def)
qed

subsection \<open>Angles computed in doubles\<close>



text \<open>The same three points with \<open>(369, 369)\<close> in the middle: the cosine is the double
  before -1.\<close>

lemma get_angle_straight_raises:
  "get_angle binary64 (0, 0) (369, 369) (738, 738) = Inl ValueError"
proof -
  define k1 :: real where "k1 = of_int 7251093695829151 / 2 ^ 50"
  define k2 :: real where "k2 = of_int 7251093695829151 / 2 ^ 49"
  define k3 :: real where "k3 = of_int (- 7251093695829151) / 2 ^ 50"
  define k4 :: real where "k4 = of_int (- 5837370563110206) / 2 ^ 47"
  define k5 :: real where "k5 = of_int (- 5837370563110206) / 2 ^ 46"
  define k6 :: real where "k6 = of_int 5837370563110206 / 2 ^ 47"
  define k7 :: real where "k7 = of_int 5837370563110206 / 2 ^ 46"
  define k8 :: real where "k8 = of_int 5127297523339817 / 2 ^ 49"
  define k9 :: real where "k9 = of_int 5837370563110205 / 2 ^ 46"
  define k10 :: real where "k10 = of_int (- 4503599627370497) / 2 ^ 52"
  have f1: "np_radians binary64 0 = 0"
    by (rule radians64_0)
  have f2: "radians binary64 (0, 0) = (0, 0)"
    by (simp add: radians_def f1)
  have f3: "np_radians binary64 369 = k1"
    unfolding binary64_fields deg2rad_def k1_def
    by (rule rnd_near [where n = "7251093695829151" and K = 50]) simp_all
  have f4: "radians binary64 (369, 369) = (k1, k1)"
    by (simp add: radians_def f3)
  have f5: "np_radians binary64 738 = k2"
    unfolding binary64_fields deg2rad_def k2_def
    by (rule rnd_near [where n = "7251093695829151" and K = 49]) simp_all
  have f6: "radians binary64 (738, 738) = (k2, k2)"
    by (simp add: radians_def f5)
  have f7: "rnd (0 - k1) = k3"
    unfolding k1_def k3_def
    by (rule rnd_near [where n = "-7251093695829151" and K = 50]) simp_all
  have f8: "vsub binary64 (0, 0) (k1, k1) = (k3, k3)"
    by (simp only: vsub_def fst_conv snd_conv binary64_fields(2) f7)
  have f9: "rnd (k2 - k1) = k1"
    unfolding k2_def k1_def
    by (rule rnd_near [where n = "7251093695829151" and K = 50]) simp_all
  have f10: "vsub binary64 (k2, k2) (k1, k1) = (k1, k1)"
    by (simp only: vsub_def fst_conv snd_conv binary64_fields(2) f9)
  have f11: "rnd (k3 * k1) = k4"
    unfolding k3_def k1_def k4_def
    by (rule rnd_near [where n = "-5837370563110206" and K = 47]) simp_all
  have f12: "rnd (k4 + k4) = k5"
    unfolding k4_def k5_def
    by (rule rnd_near [where n = "-5837370563110206" and K = 46]) simp_all
  have f13: "dot64 (k3, k3) (k1, k1) = k5"
    by (simp only: dot64_def fst_conv snd_conv f11 f12)
  have f14: "rnd (k3 * k3) = k6"
    unfolding k3_def k6_def
    by (rule rnd_near [where n = "5837370563110206" and K = 47]) simp_all
  have f15: "rnd (k6 + k6) = k7"
    unfolding k6_def k7_def
    by (rule rnd_near [where n = "5837370563110206" and K = 46]) simp_all
  have f16: "dot64 (k3, k3) (k3, k3) = k7"
    by (simp only: dot64_def fst_conv snd_conv f14 f15)
  have f17: "rnd (sqrt k7) = k8"
    unfolding k7_def k8_def
    by (rule rnd_sqrt_near [where n = "5127297523339817" and K = 49]) (simp_all add: power_divide)
  have f18: "linalg_norm binary64 (k3, k3) = k8"
    by (simp only: binary64_fields(4) f16 f17)
  have f19: "rnd (k1 * k1) = k6"
    unfolding k1_def k6_def
    by (rule rnd_near [where n = "5837370563110206" and K = 47]) simp_all
  have f20: "dot64 (k1, k1) (k1, k1) = k7"
    by (simp only: dot64_def fst_conv snd_conv f19 f15)
  have f21: "linalg_norm binary64 (k1, k1) = k8"
    by (simp only: binary64_fields(4) f20 f17)
  have f22: "rnd (k8 * k8) = k9"
    unfolding k8_def k9_def
    by (rule rnd_near [where n = "5837370563110205" and K = 46]) simp_all
  have f23: "np_multiply binary64 k8 k8 = k9"
    by (simp only: binary64_fields(5) f22)
  have f24: "rnd (k5 / k9) = k10"
    unfolding k5_def k9_def k10_def
    by (rule rnd_near [where n = "-4503599627370497" and K = 52]) simp_all
  have f25: "k9 \<noteq> 0"
    by (simp add: k9_def)
  have f26: "np_divide binary64 k5 k9 = Fin k10"
    by (simp only: binary64_fields(6) f25 f24 if_False)
  have f27: "\<not> (- 1 \<le> k10 \<and> k10 \<le> 1)"
    by (simp add: k10_def)
  have f28: "angle_between_vectors_degrees binary64 (k3, k3) (k1, k1) = Inl ValueError"
    by (simp only: angle_between_vectors_degrees_def binary64_fields(3) f13 f18 f21 f23 f26 math_acos_def fl.case f27 if_False and_then_Inl)
  have f29: "get_angle binary64 (0, 0) (369, 369) (738, 738) = Inl ValueError"
    by (simp only: get_angle_def Let_def f2 f4 f6 f8 f10 f28)
  show ?thesis by (rule f29)
qed







section \<open>Invariance of the angle range under the order of the input\<close>

lemma cross3_swap12: "cross3 b a c = - cross3 a b c"
  by (simp add: cross3_def algebra_simps)

lemma cross3_swap23: "cross3 a c b = - cross3 a b c"
  by (simp add: cross3_def algebra_simps)

lemma cross3_swap13: "cross3 c b a = - cross3 a b c"
  by (simp add: cross3_def algebra_simps)

lemma cross3_pos_distinct:
  assumes "cross3 a b c > 0"
  shows "a \<noteq> b" and "b \<noteq> c" and "a \<noteq> c"
  using assms by (auto simp: cross3_def algebra_simps)

lemma clockwise_distinct: "clockwise [a, b, c, d] \<Longrightarrow> distinct [a, b, c, d]"
  using cross3_pos_distinct [of a b c] cross3_pos_distinct [of b c d]
    cross3_pos_distinct [of c d a]
  by auto

lemma clockwise_rotate: "clockwise [a, b, c, d] \<Longrightarrow> clockwise [b, c, d, a]"
  by simp

lemma clockwise_same_start:
  assumes "clockwise [a, b, c, d]" and "clockwise [a, x, y, z]"
    and "set [x, y, z] = set [b, c, d]"
  shows "[x, y, z] = [b, c, d]"
proof -
  from assms(1) have base: "cross3 a b c > 0" "cross3 b c d > 0" "cross3 c d a > 0" "cross3 d a b > 0"
    by simp_all
  from assms(2) have new: "cross3 a x y > 0" "cross3 x y z > 0" "cross3 y z a > 0" "cross3 z a x > 0"
    by simp_all
  from clockwise_distinct [OF assms(2)] have d: "x \<noteq> y" "y \<noteq> z" "x \<noteq> z" by auto
  from assms(3) have mem: "x \<in> {b, c, d}" "y \<in> {b, c, d}" "z \<in> {b, c, d}" by auto
  have n1: "\<not> (x = b \<and> y = d \<and> z = c)"
    using base(2) new(2) cross3_swap23 [of b d c] by auto
  have n2: "\<not> (x = c \<and> y = b)"
    using base(1) new(1) cross3_swap23 [of a c b] by auto
  have n3: "\<not> (x = c \<and> y = d \<and> z = b)"
    using base(1) new(4) cross3_swap12 [of b a c] by auto
  have n4: "\<not> (x = d \<and> y = b)"
    using base(4) new(1) cross3_swap12 [of a d b] by auto
  have n5: "\<not> (x = d \<and> y = c \<and> z = b)"
    using base(2) new(2) cross3_swap13 [of d c b] by auto
  from mem d n1 n2 n3 n4 n5 show ?thesis by auto
qed


lemma clockwise_4: "clockwise q \<Longrightarrow> \<exists>a b c d. q = [a, b, c, d]"
  by (induction q rule: clockwise.induct) simp_all

lemma clockwise_unique:
  assumes "clockwise [a, b, c, d]" and "clockwise [a, x, y, z]"
    and "set [a, x, y, z] = set [a, b, c, d]"
  shows "[a, x, y, z] = [a, b, c, d]"
proof -
  from clockwise_distinct [OF assms(1)] have "a \<notin> set [b, c, d]" by auto
  moreover from clockwise_distinct [OF assms(2)] have "a \<notin> set [x, y, z]" by auto
  ultimately have "set [x, y, z] = set [b, c, d]" using assms(3) by auto
  from clockwise_same_start [OF assms(1,2) this] show ?thesis by simp
qed

lemma clockwise_orders_angle_range:
  assumes "clockwise q" and "clockwise q'" and "set q' = set q"
  shows "angle_range lib q' = angle_range lib q"
proof -
  from clockwise_4 [OF assms(1)] obtain a b c d where q: "q = [a, b, c, d]" by blast
  from clockwise_4 [OF assms(2)] obtain w x y z where q': "q' = [w, x, y, z]" by blast
  have cq: "clockwise [a, b, c, d]" using assms(1) q by simp
  have cq': "clockwise [w, x, y, z]" using assms(2) q' by simp
  have s: "set [w, x, y, z] = set [a, b, c, d]" using assms(3) q q' by simp
  then have "a \<in> set [w, x, y, z]" by simp
  then consider (1) "w = a" | (2) "x = a" | (3) "y = a" | (4) "z = a" by auto
  then have "angle_range lib [w, x, y, z] = angle_range lib [a, b, c, d]"
  proof cases
    case 1
    have "[a, x, y, z] = [a, b, c, d]"
      using cq cq' s unfolding 1 by (rule clockwise_unique)
    then show ?thesis using 1 by simp
  next
    case 2
    have c: "clockwise [a, y, z, w]" using cq' 2 by simp
    have "set [a, y, z, w] = set [a, b, c, d]" using s 2 by auto
    from clockwise_unique [OF cq c this] have "[x, y, z, w] = [a, b, c, d]" using 2 by simp
    then show ?thesis using angle_range_rotate [of lib x y z w] by simp
  next
    case 3
    have c: "clockwise [a, z, w, x]" using cq' 3 by simp
    have "set [a, z, w, x] = set [a, b, c, d]" using s 3 by auto
    from clockwise_unique [OF cq c this] have "[y, z, w, x] = [a, b, c, d]" using 3 by simp
    then show ?thesis
      using angle_range_rotate [of lib x y z w] angle_range_rotate [of lib y z w x] by simp
  next
    case 4
    have c: "clockwise [a, w, x, y]" using cq' 4 by simp
    have "set [a, w, x, y] = set [a, b, c, d]" using s 4 by auto
    from clockwise_unique [OF cq c this] have "[z, w, x, y] = [a, b, c, d]" using 4 by simp
    then show ?thesis
      using angle_range_rotate [of lib w x y z, symmetric] by simp
  qed
  then show ?thesis using q q' by simp
qed


lemma angle_at_fin: "p1 \<noteq> p2 \<Longrightarrow> p3 \<noteq> p2 \<Longrightarrow> \<exists>r. angle_at p1 p2 p3 = Fin r"
  by (simp add: angle_at_def Let_def)

lemma exact_angle_range_fin:
  assumes "a \<noteq> b" and "b \<noteq> c" and "c \<noteq> d" and "d \<noteq> a"
  shows "\<exists>r. angle_range (exact_arithmetic lib) [a, b, c, d] = Inr (Fin r)"
proof -
  obtain r1 where 1: "angle_at a b c = Fin r1" using angle_at_fin [of a b c] assms by auto
  obtain r2 where 2: "angle_at d a b = Fin r2" using angle_at_fin [of d a b] assms by auto
  obtain r3 where 3: "angle_at b c d = Fin r3" using angle_at_fin [of b c d] assms by auto
  obtain r4 where 4: "angle_at c d a = Fin r4" using angle_at_fin [of c d a] assms by auto
  show ?thesis
    by (simp add: angle_range_4 exact_get_angle_angle_at and_then_Inr np_ptp_4 1 2 3 4)
qed

lemma exact_clockwise_angle_range_fin:
  "clockwise q \<Longrightarrow> \<exists>r. angle_range (exact_arithmetic lib) q = Inr (Fin r)"
proof -
  assume c: "clockwise q"
  from clockwise_4 [OF c] obtain a b c' d where q: "q = [a, b, c', d]" by blast
  from clockwise_distinct c q have "distinct [a, b, c', d]" by simp
  then show ?thesis unfolding q by (intro exact_angle_range_fin) auto
qed

text \<open>
  Claim C8. For 4 points in convex position (they have a clockwise order, so no three
  of them are collinear), ordering them with \<^verbatim>\<open>order_points\<close> and taking
  \<^verbatim>\<open>angle_range\<close> has the same outcome for every permutation of the input, rotations
  and mirrorings included, whenever \<^verbatim>\<open>order_points\<close> returns on both inputs an order
  that the spec allows: the same float, or the same exception. This holds for every
  arithmetic, that of doubles included. In arithmetic that does not round the outcome
  is a number.
\<close>

theorem angle_range_order_invariant:
  assumes "mset pts' = mset pts"
    and "canonical_order pts (order_points lib pts)"
    and "canonical_order pts' (order_points lib pts')"
  shows "angle_range lib (order_points lib pts') = angle_range lib (order_points lib pts)
         \<and> (\<exists>r. angle_range (exact_arithmetic lib) (order_points lib pts) = Inr (Fin r))"
proof -
  let ?q = "order_points lib pts" and ?q' = "order_points lib pts'"
  have "mset ?q' = mset ?q" using assms by (simp add: canonical_order_def)
  then have "set ?q' = set ?q" by (rule mset_eq_setD)
  moreover have "clockwise ?q" "clockwise ?q'" using assms(2,3) by (simp_all add: canonical_order_def)
  ultimately show ?thesis
    using clockwise_orders_angle_range exact_clockwise_angle_range_fin by blast
qed

theorem angle_range_order_invariant_witness:
  "mset [(800, 200), (800, 800), (200, 800), (200, 200) :: point]
     = mset [(200, 200), (800, 200), (800, 800), (200, 800)]
   \<and> mset [(200, 800), (800, 800), (800, 200), (200, 200) :: point]
     = mset [(200, 200), (800, 200), (800, 800), (200, 800)]
   \<and> canonical_order [(200, 200), (800, 200), (800, 800), (200, 800)]
       (order_points (binary64\<lparr>order_points := example_order\<rparr>)
          [(200, 200), (800, 200), (800, 800), (200, 800)])
   \<and> canonical_order [(800, 200), (800, 800), (200, 800), (200, 200)]
       (order_points (binary64\<lparr>order_points := example_order\<rparr>)
          [(800, 200), (800, 800), (200, 800), (200, 200)])
   \<and> canonical_order [(200, 800), (800, 800), (800, 200), (200, 200)]
       (order_points (binary64\<lparr>order_points := example_order\<rparr>)
          [(200, 800), (800, 800), (800, 200), (200, 200)])
   \<and> angle_range (binary64\<lparr>order_points := example_order\<rparr>)
        (order_points (binary64\<lparr>order_points := example_order\<rparr>)
           [(800, 200), (800, 800), (200, 800), (200, 200)])
       = angle_range (binary64\<lparr>order_points := example_order\<rparr>)
           (order_points (binary64\<lparr>order_points := example_order\<rparr>)
              [(200, 200), (800, 200), (800, 800), (200, 800)])
   \<and> angle_range (binary64\<lparr>order_points := example_order\<rparr>)
        (order_points (binary64\<lparr>order_points := example_order\<rparr>)
           [(200, 800), (800, 800), (800, 200), (200, 200)])
       = angle_range (binary64\<lparr>order_points := example_order\<rparr>)
           (order_points (binary64\<lparr>order_points := example_order\<rparr>)
              [(200, 200), (800, 200), (800, 800), (200, 800)])"
proof -
  let ?S = "[(200, 200), (800, 200), (800, 800), (200, 800) :: point]"
  let ?R = "[(800, 200), (800, 800), (200, 800), (200, 200) :: point]"
  let ?M = "[(200, 800), (800, 800), (800, 200), (200, 200) :: point]"
  let ?cv = "binary64\<lparr>order_points := example_order\<rparr>"
  have r: "mset ?R = mset ?S" and m: "mset ?M = mset ?S" by simp_all
  have 1: "canonical_order ?S (order_points ?cv ?S)"
    by (simp add: canonical_order_def example_order_def cross3_def)
  have 2: "canonical_order ?R (order_points ?cv ?R)"
    by (simp add: canonical_order_def example_order_def cross3_def)
  have 3: "canonical_order ?M (order_points ?cv ?M)"
    by (simp add: canonical_order_def example_order_def cross3_def)
  from angle_range_order_invariant [OF r 1 2] angle_range_order_invariant [OF m 1 3]
    r m 1 2 3
  show ?thesis by blast
qed

lemma rnd_dyadic:
  assumes "\<bar>m\<bar> < 2 ^ 53"
  shows "rnd (of_int m / 2 ^ k) = of_int m / 2 ^ k"
proof (cases "m = 0")
  case True
  then show ?thesis by (simp add: rnd_0)
next
  case False
  define x :: real where "x = of_int m / 2 ^ k"
  define L where "L = \<lfloor>log 2 \<bar>x\<bar>\<rfloor>"
  have x0: "x \<noteq> 0" using False by (simp add: x_def)
  then have pos: "0 < \<bar>x\<bar>" by simp
  have "\<lfloor>log 2 \<bar>x\<bar>\<rfloor> = L" by (simp add: L_def)
  then have lo: "2 powr (of_int L) \<le> \<bar>x\<bar>"
    using pos by (simp add: floor_log_eq_powr_iff)
  have "\<bar>real_of_int m\<bar> < 2 ^ 53"
  proof -
    have "real_of_int \<bar>m\<bar> < real_of_int (2 ^ 53)" using assms by (simp only: of_int_less_iff)
    then show ?thesis by simp
  qed
  then have "\<bar>x\<bar> < 2 ^ 53 / 2 ^ k"
    by (simp add: x_def abs_divide divide_strict_right_mono)
  also have "\<dots> = 2 powr (of_int (int 53 - int k))"
    by (simp only: two_powr_int_diff)
  finally have "2 powr (of_int L) < (2 :: real) powr (of_int (int 53 - int k))"
    using lo by linarith
  then have "real_of_int L < real_of_int (int 53 - int k)" by simp
  then have Lk: "L < int 53 - int k" by (simp only: of_int_less_iff)
  define j where "j = nat (52 - L - int k)"
  have "L - 52 = int 0 - int (k + j)" using Lk by (simp add: j_def)
  then have e: "2 powr (of_int (L - 52)) = (1 :: real) / 2 ^ (k + j)"
    using two_powr_int_diff [of 0 "k + j"] by simp
  have i: "x / (1 / 2 ^ (k + j)) = of_int (m * 2 ^ j)"
    by (simp add: x_def power_add)
  have "rnd x = of_int (round_even (x / 2 powr (of_int (L - 52)))) * 2 powr (of_int (L - 52))"
    using x0 by (simp add: rnd_def Let_def L_def)
  also have "\<dots> = of_int (m * 2 ^ j) * (1 / 2 ^ (k + j))"
    unfolding e i by (simp only: round_even_of_int)
  also have "\<dots> = x" by (simp add: x_def power_add)
  finally show ?thesis by (simp only: x_def)
qed

lemma rnd_of_int: "\<bar>m\<bar> < 2 ^ 53 \<Longrightarrow> rnd (of_int m) = of_int m"
  using rnd_dyadic [of m 0] by simp


subsection \<open>Scaling by a power of two\<close>






section \<open>The conversion to radians in \<^verbatim>\<open>get_angle\<close>\<close>

lemma vdiff_origin: "vdiff (vec_of p) (vec_of (0, 0)) = vec_of p"
  by (simp add: vdiff_def vec_of_def)




section \<open>Properties of the validity test\<close>


lemma slanted_angle_range:
  "angle_range binary64 [(0, 0), (369, 369), (738, 738), (0, 738)] = Inl ValueError"
  by (simp add: angle_range_4 get_angle_straight_raises and_then_Inl)

lemma slanted_area: "polygon_area [(0, 0), (369, 369), (738, 738), (0, 738)] = 272322"
  by (simp add: polygon_area_def)



section \<open>Properties of the contour path\<close>

lemma contour_loop_find:
  assumes "\<forall>c \<in> set cs. \<exists>ok. is_valid_contour self lib (approxPolyDP lib c 80 True) W H = Inr ok"
  shows "contour_loop self lib W H cs acc =
     Inr (acc @ (case find (valid_quad self lib W H) (map (\<lambda>c. approxPolyDP lib c 80 True) cs) of
                  None \<Rightarrow> [] | Some a \<Rightarrow> [a]))"
  using assms
proof (induction cs)
  case Nil
  show ?case by simp
next
  case (Cons c cs)
  from Cons.prems obtain ok where
    ok: "is_valid_contour self lib (approxPolyDP lib c 80 True) W H = Inr ok" by auto
  then have v: "ok = valid_quad self lib W H (approxPolyDP lib c 80 True)"
    by (rule is_valid_contour_Inr)
  show ?case
  proof (cases ok)
    case True
    with ok v show ?thesis by (simp add: Let_def)
  next
    case False
    with ok v Cons show ?thesis by (simp add: Let_def)
  qed
qed

lemma contour_loop_break:
  assumes "is_valid_contour self lib (approxPolyDP lib c 80 True) W H = Inr True"
  shows "contour_loop self lib W H (pre @ c # rest) acc = contour_loop self lib W H (pre @ [c]) acc"
proof (induction pre)
  case Nil
  show ?case using assms by (simp add: Let_def)
next
  case (Cons p pre)
  show ?case
  proof (cases "is_valid_contour self lib (approxPolyDP lib p 80 True) W H")
    case (Inl e)
    then show ?thesis by (simp add: Let_def)
  next
    case (Inr ok)
    then show ?thesis using Cons.IH by (cases ok) (simp_all add: Let_def)
  qed
qed

lemma contour_loop_first_valid:
  assumes "is_valid_contour self lib (approxPolyDP lib c 80 True) W H = Inr True"
    and "\<forall>p \<in> set pre. is_valid_contour self lib (approxPolyDP lib p 80 True) W H = Inr False"
  shows "contour_loop self lib W H (pre @ c # rest) acc = Inr (acc @ [approxPolyDP lib c 80 True])"
  by (simp only: contour_loop_skip [OF assms(2)] contour_loop_hit [OF assms(1)])

lemma contour_loop_first_raises:
  assumes "is_valid_contour self lib (approxPolyDP lib c 80 True) W H = Inl e"
    and "\<forall>p \<in> set pre. is_valid_contour self lib (approxPolyDP lib p 80 True) W H = Inr False"
  shows "contour_loop self lib W H (pre @ c # rest) acc = Inl e"
  by (simp only: contour_loop_skip [OF assms(2)] contour_loop_raise [OF assms(1)])

lemma contour_loop_none_valid:
  assumes "\<forall>p \<in> set cs. is_valid_contour self lib (approxPolyDP lib p 80 True) W H = Inr False"
  shows "contour_loop self lib W H cs acc = Inr acc"
  using contour_loop_skip [OF assms, of "[]" acc] by simp

text \<open>
  Claim C5. For every list of raw contours, the contour path looks only at
  \<open>largest5\<close>, the at most 5 contours of greatest area in descending order of area;
  each is simplified by \<^verbatim>\<open>approxPolyDP\<close> with tolerance 80 and tested with
  \<^verbatim>\<open>is_valid_contour\<close>, in this order. The contribution is the first approximation
  that passes, when the test returned false on all approximations before it, and
  nothing when it returned false on all of them: at most one candidate. The contours
  after the first success do not matter. The test itself can raise (the
  \<^verbatim>\<open>ValueError\<close> of the angle computation); raised on the first approximation that
  is not rejected, the exception leaves the path, and when the test raises on none of
  the five, the contribution is the first valid approximation if there is one.
\<close>

theorem contour_path_first_valid:
  "((\<forall>c \<in> set (largest5 lib cnts).
        \<exists>ok. is_valid_contour self lib (approxPolyDP lib c 80 True) W H = Inr ok) \<longrightarrow>
      contour_path self lib W H cnts =
        Inr (case find (valid_quad self lib W H)
                   (map (\<lambda>c. approxPolyDP lib c 80 True) (largest5 lib cnts)) of
               None \<Rightarrow> [] | Some a \<Rightarrow> [a]))
   \<and> (\<forall>B. contour_path self lib W H cnts = Inr B \<longrightarrow> length B \<le> 1)
   \<and> length (largest5 lib cnts) = min 5 (length cnts)
   \<and> mset (largest5 lib cnts) \<subseteq># mset cnts
   \<and> sorted_wrt (\<lambda>c d. contourArea lib c \<ge> contourArea lib d) (largest5 lib cnts)
   \<and> (\<forall>c d. c \<in># mset cnts - mset (largest5 lib cnts) \<and> d \<in> set (largest5 lib cnts) \<longrightarrow>
          contourArea lib c \<le> contourArea lib d)
   \<and> (\<forall>pre c rest.
          largest5 lib cnts = pre @ c # rest
          \<and> is_valid_contour self lib (approxPolyDP lib c 80 True) W H = Inr True
          \<and> (\<forall>p \<in> set pre.
                is_valid_contour self lib (approxPolyDP lib p 80 True) W H = Inr False) \<longrightarrow>
          contour_path self lib W H cnts = Inr [approxPolyDP lib c 80 True])
   \<and> ((\<forall>c \<in> set (largest5 lib cnts).
          is_valid_contour self lib (approxPolyDP lib c 80 True) W H = Inr False) \<longrightarrow>
          contour_path self lib W H cnts = Inr [])
   \<and> (\<forall>pre c rest e.
          largest5 lib cnts = pre @ c # rest
          \<and> is_valid_contour self lib (approxPolyDP lib c 80 True) W H = Inl e
          \<and> (\<forall>p \<in> set pre.
                is_valid_contour self lib (approxPolyDP lib p 80 True) W H = Inr False) \<longrightarrow>
          contour_path self lib W H cnts = Inl e)
   \<and> (\<forall>pre c rest acc.
          is_valid_contour self lib (approxPolyDP lib c 80 True) W H = Inr True \<longrightarrow>
          contour_loop self lib W H (pre @ c # rest) acc =
          contour_loop self lib W H (pre @ [c]) acc)
   \<and> (\<forall>cnt. is_valid_contour self lib cnt W H = Inr True \<longleftrightarrow> valid_quad self lib W H cnt)"
proof -
  have 0: "(\<forall>c \<in> set (largest5 lib cnts).
        \<exists>ok. is_valid_contour self lib (approxPolyDP lib c 80 True) W H = Inr ok) \<longrightarrow>
      contour_path self lib W H cnts =
        Inr (case find (valid_quad self lib W H)
                   (map (\<lambda>c. approxPolyDP lib c 80 True) (largest5 lib cnts)) of
               None \<Rightarrow> [] | Some a \<Rightarrow> [a])"
    using contour_loop_find [of "largest5 lib cnts" self lib W H "[]"]
    by (simp add: contour_path_eq)
  have 1: "\<forall>B. contour_path self lib W H cnts = Inr B \<longrightarrow> length B \<le> 1"
    using contour_path_shape [of self lib W H cnts] by auto
  have 2: "\<forall>pre c rest.
          largest5 lib cnts = pre @ c # rest
          \<and> is_valid_contour self lib (approxPolyDP lib c 80 True) W H = Inr True
          \<and> (\<forall>p \<in> set pre.
                is_valid_contour self lib (approxPolyDP lib p 80 True) W H = Inr False) \<longrightarrow>
          contour_path self lib W H cnts = Inr [approxPolyDP lib c 80 True]"
    using contour_loop_first_valid [of self lib _ W H _ _ "[]"]
    by (simp add: contour_path_eq)
  have 3: "(\<forall>c \<in> set (largest5 lib cnts).
          is_valid_contour self lib (approxPolyDP lib c 80 True) W H = Inr False) \<longrightarrow>
          contour_path self lib W H cnts = Inr []"
    using contour_loop_none_valid [of "largest5 lib cnts" self lib W H "[]"]
    by (simp add: contour_path_eq)
  have 4: "\<forall>c d. c \<in># mset cnts - mset (largest5 lib cnts) \<and> d \<in> set (largest5 lib cnts) \<longrightarrow>
          contourArea lib c \<le> contourArea lib d"
    using largest5_dominates by blast
  have 5: "\<forall>pre c rest acc.
          is_valid_contour self lib (approxPolyDP lib c 80 True) W H = Inr True \<longrightarrow>
          contour_loop self lib W H (pre @ c # rest) acc =
          contour_loop self lib W H (pre @ [c]) acc"
    using contour_loop_break by blast
  have 6: "\<forall>pre c rest e.
          largest5 lib cnts = pre @ c # rest
          \<and> is_valid_contour self lib (approxPolyDP lib c 80 True) W H = Inl e
          \<and> (\<forall>p \<in> set pre.
                is_valid_contour self lib (approxPolyDP lib p 80 True) W H = Inr False) \<longrightarrow>
          contour_path self lib W H cnts = Inl e"
    using contour_loop_first_raises [of self lib _ W H _ _ _ "[]"]
    by (simp add: contour_path_eq)
  have 7: "\<forall>cnt. is_valid_contour self lib cnt W H = Inr True \<longleftrightarrow> valid_quad self lib W H cnt"
    by (simp add: is_valid_contour_True)
  show ?thesis
    using 0 1 2 3 4 5 6 7 largest5_length [of lib cnts]
      largest5_subset [of lib cnts] largest5_sorted [of lib cnts]
    by blast
qed

subsection \<open>Examples in doubles\<close>

lemma threshold_quarter: "np_multiply binary64 1000000 (1 / 4) = 250000"
  using threshold_250000 by (simp add: default_scanner_def)

lemma rectangle_is_valid:
  assumes "0 < w" and "0 < h"
  shows "is_valid_contour default_scanner binary64 [(0, 0), (w, 0), (w, h), (0, h)] 1000 1000
           = Inr (250000 < real_of_int (w * h))"
proof -
  have a: "angle_range binary64 [(0, 0), (w, 0), (w, h), (0, h)] = Inr (Fin 0)"
    using assms by (intro rectangle_angle_range) simp_all
  have ar: "contourArea binary64 [(0, 0), (w, 0), (w, h), (0, h)] = real_of_int (w * h)"
    using assms rectangle_area [of 0 w 0 h] by (simp add: binary64_fields(9))
  show ?thesis
    by (simp add: is_valid_contour_def ar threshold_quarter a and_then_Inr
        default_scanner_def)
qed

lemma rectangle_contour_area:
  assumes "0 \<le> w" and "0 \<le> h"
  shows "contourArea binary64 [(0, 0), (w, 0), (w, h), (0, h)] = real_of_int (w * h)"
  using assms rectangle_area [of 0 w 0 h] by (simp add: binary64_fields(9))

lemma slanted_is_valid:
  "is_valid_contour default_scanner binary64 [(0, 0), (369, 369), (738, 738), (0, 738)] 1000 1000
     = Inl ValueError"
  by (simp add: is_valid_contour_def binary64_fields(9) slanted_area threshold_quarter
      slanted_angle_range and_then_Inl default_scanner_def)

theorem contour_path_first_valid_witness:
  "largest5 binary64
     [[(0, 0), (100, 0), (100, 100), (0, 100)],
      [(0, 0), (600, 0), (600, 600), (0, 600)],
      [(0, 0), (900, 0), (900, 900), (450, 950), (0, 900)],
      [(0, 0), (700, 0), (700, 700), (0, 700)]]
   = [[(0, 0), (900, 0), (900, 900), (450, 950), (0, 900)],
      [(0, 0), (700, 0), (700, 700), (0, 700)],
      [(0, 0), (600, 0), (600, 600), (0, 600)],
      [(0, 0), (100, 0), (100, 100), (0, 100)]]
   \<and> is_valid_contour default_scanner binary64
        (approxPolyDP binary64 [(0, 0), (900, 0), (900, 900), (450, 950), (0, 900)] 80 True)
        1000 1000 = Inr False
   \<and> is_valid_contour default_scanner binary64
        (approxPolyDP binary64 [(0, 0), (700, 0), (700, 700), (0, 700)] 80 True)
        1000 1000 = Inr True
   \<and> contour_path default_scanner binary64 1000 1000
       [[(0, 0), (100, 0), (100, 100), (0, 100)],
        [(0, 0), (600, 0), (600, 600), (0, 600)],
        [(0, 0), (900, 0), (900, 900), (450, 950), (0, 900)],
        [(0, 0), (700, 0), (700, 700), (0, 700)]]
     = Inr [[(0, 0), (700, 0), (700, 700), (0, 700)]]
   \<and> largest5 binary64
       [[(0, 0), (100, 0), (100, 100), (0, 100)],
        [(0, 0), (369, 369), (738, 738), (0, 738)]]
     = [[(0, 0), (369, 369), (738, 738), (0, 738)],
        [(0, 0), (100, 0), (100, 100), (0, 100)]]
   \<and> is_valid_contour default_scanner binary64
        (approxPolyDP binary64 [(0, 0), (369, 369), (738, 738), (0, 738)] 80 True)
        1000 1000 = Inl ValueError
   \<and> contour_path default_scanner binary64 1000 1000
       [[(0, 0), (100, 0), (100, 100), (0, 100)],
        [(0, 0), (369, 369), (738, 738), (0, 738)]]
     = Inl ValueError"
proof -
  let ?A = "[(0, 0), (100, 0), (100, 100), (0, 100) :: point]"
  let ?B = "[(0, 0), (600, 0), (600, 600), (0, 600) :: point]"
  let ?P = "[(0, 0), (900, 0), (900, 900), (450, 950), (0, 900) :: point]"
  let ?T = "[(0, 0), (700, 0), (700, 700), (0, 700) :: point]"
  let ?C = "[(0, 0), (369, 369), (738, 738), (0, 738) :: point]"
  have a: "contourArea binary64 ?A = 10000" "contourArea binary64 ?B = 360000"
    "contourArea binary64 ?T = 490000"
    by (simp_all add: rectangle_contour_area)
  have p: "contourArea binary64 ?P = 832500"
    by (simp add: binary64_fields(9) polygon_area_def)
  have c: "contourArea binary64 ?C = 272322"
    by (simp add: binary64_fields(9) slanted_area)
  have l: "largest5 binary64 [?A, ?B, ?P, ?T] = [?P, ?T, ?B, ?A]"
    by (simp add: largest5_def a p)
  have l2: "largest5 binary64 [?A, ?C] = [?C, ?A]"
    by (simp add: largest5_def a c)
  have vp: "is_valid_contour default_scanner binary64 (approxPolyDP binary64 ?P 80 True) 1000 1000
              = Inr False"
    by (simp add: binary64_fields(10) is_valid_contour_def)
  have vt: "is_valid_contour default_scanner binary64 (approxPolyDP binary64 ?T 80 True) 1000 1000
              = Inr True"
    by (simp add: binary64_fields(10) rectangle_is_valid)
  have vc: "is_valid_contour default_scanner binary64 (approxPolyDP binary64 ?C 80 True) 1000 1000
              = Inl ValueError"
    by (simp add: binary64_fields(10) slanted_is_valid)
  have 1: "contour_path default_scanner binary64 1000 1000 [?A, ?B, ?P, ?T] = Inr [?T]"
    using contour_path_first_valid [of binary64 "[?A, ?B, ?P, ?T]" default_scanner 1000 1000,
        THEN conjunct2, THEN conjunct2, THEN conjunct2, THEN conjunct2, THEN conjunct2,
        THEN conjunct2, THEN conjunct1, rule_format, of "[?P]" ?T "[?B, ?A]"]
      l vp vt
    by (simp add: binary64_fields(10))
  have 2: "contour_path default_scanner binary64 1000 1000 [?A, ?C] = Inl ValueError"
    using contour_path_first_valid [of binary64 "[?A, ?C]" default_scanner 1000 1000,
        THEN conjunct2, THEN conjunct2, THEN conjunct2, THEN conjunct2, THEN conjunct2,
        THEN conjunct2, THEN conjunct2, THEN conjunct2, THEN conjunct1, rule_format,
        of "[]" ?C "[?A]" ValueError]
      l2 vc
    by simp
  from l l2 vp vt vc 1 2 show ?thesis by (simp only: simp_thms)
qed

section \<open>Properties of \<^verbatim>\<open>get_contour\<close>\<close>

text \<open>
  Claim C3. Whenever at least one of the two paths produced a candidate, \<^verbatim>\<open>get_contour\<close>
  returns, with the flag true, a candidate of greatest area: the single candidate when
  only one path produced one, and of two the contour-path candidate when its area is
  strictly larger, the corner-path candidate otherwise. Each path produces at most one.
\<close>

theorem get_contour_larger_area:
  assumes "corner_path self lib W H cs = Inr A"
    and "contour_path self lib W H cnts = Inr B"
    and "A @ B \<noteq> []"
  shows "\<exists>w. get_contour self lib W H cs cnts = Inr (w, True)
           \<and> w \<in> set (A @ B)
           \<and> (\<forall>c \<in> set (A @ B). contourArea lib c \<le> contourArea lib w)
           \<and> (\<forall>a. A = [a] \<and> B = [] \<longrightarrow> w = a)
           \<and> (\<forall>b. A = [] \<and> B = [b] \<longrightarrow> w = b)
           \<and> (\<forall>a b. A = [a] \<and> B = [b] \<longrightarrow>
                 w = (if contourArea lib b > contourArea lib a then b else a))
           \<and> length A \<le> 1 \<and> length B \<le> 1"
proof -
  note m = get_contour_merge [OF assms(1) assms(2)]
  from corner_path_shape [OF assms(1)] contour_path_shape [OF assms(2)] assms(3)
  consider (a) a where "A = [a]" "B = []" "valid_quad self lib W H a"
    | (b) b where "A = []" "B = [b]" "valid_quad self lib W H b"
    | (ab) a b where "A = [a]" "B = [b]" "valid_quad self lib W H a" "valid_quad self lib W H b"
    by auto
  then show ?thesis
  proof cases
    case a
    then show ?thesis
      by (simp add: m max_py_def reshape_4_2_def and_then_Inr valid_quad_length)
  next
    case b
    then show ?thesis
      by (simp add: m max_py_def reshape_4_2_def and_then_Inr valid_quad_length)
  next
    case ab
    then show ?thesis
      by (simp add: m max_py_def reshape_4_2_def and_then_Inr valid_quad_length)
  qed
qed

text \<open>
  Claim C9. When the corner-path candidate and the contour-path candidate have equal
  area, \<^verbatim>\<open>get_contour\<close> returns the corner-path candidate: it is first in
  \<^verbatim>\<open>approx_contours\<close>, and \<^verbatim>\<open>max\<close> replaces its running maximum only by an item of
  strictly greater key.
\<close>

theorem get_contour_tie_corner_path:
  assumes "corner_path self lib W H cs = Inr [a]"
    and "contour_path self lib W H cnts = Inr [b]"
    and "contourArea lib a = contourArea lib b"
  shows "get_contour self lib W H cs cnts = Inr (a, True)
         \<and> max_py (contourArea lib) [a, b] = Inr a"
proof -
  from corner_path_shape [OF assms(1)] have "length a = 4"
    by (simp add: valid_quad_length)
  then show ?thesis
    using assms(3)
    by (simp add: get_contour_merge [OF assms(1) assms(2)] max_py_def reshape_4_2_def
        and_then_Inr)
qed

text \<open>
  Claim C4, as amended. Whenever neither path produced a candidate (for example with no
  corner candidates and every approximation of the largest contours rejected by
  \<^verbatim>\<open>is_valid_contour\<close>), \<^verbatim>\<open>get_contour\<close> returns the four corners of the frame in the
  order top-right, bottom-right, bottom-left, top-left, with the flag false.
\<close>

theorem get_contour_fallback:
  "(corner_path self lib W H cs = Inr [] \<and> contour_path self lib W H cnts = Inr [] \<longrightarrow>
      get_contour self lib W H cs cnts = Inr ([(W, 0), (W, H), (0, H), (0, 0)], False))
   \<and> ((\<forall>c \<in> set (largest5 lib cnts).
          is_valid_contour self lib (approxPolyDP lib c 80 True) W H = Inr False) \<longrightarrow>
      get_contour self lib W H [] cnts = Inr ([(W, 0), (W, H), (0, H), (0, 0)], False))"
proof -
  have 1: "corner_path self lib W H cs = Inr [] \<and> contour_path self lib W H cnts = Inr [] \<longrightarrow>
      get_contour self lib W H cs cnts = Inr ([(W, 0), (W, H), (0, H), (0, 0)], False)"
    using get_contour_merge [of self lib W H cs "[]" cnts "[]"] by (simp add: whole_image_def)
  have 2: "(\<forall>c \<in> set (largest5 lib cnts).
          is_valid_contour self lib (approxPolyDP lib c 80 True) W H = Inr False) \<longrightarrow>
      get_contour self lib W H [] cnts = Inr ([(W, 0), (W, H), (0, H), (0, 0)], False)"
  proof
    assume "\<forall>c \<in> set (largest5 lib cnts).
          is_valid_contour self lib (approxPolyDP lib c 80 True) W H = Inr False"
    then have "contour_path self lib W H cnts = Inr []"
      unfolding contour_path_eq by (rule contour_loop_none_valid)
    then show "get_contour self lib W H [] cnts = Inr ([(W, 0), (W, H), (0, H), (0, 0)], False)"
      using get_contour_merge [of self lib W H "[]" "[]" cnts "[]"]
      by (simp add: whole_image_def corner_path_few)
  qed
  from 1 2 show ?thesis by blast
qed

lemma contour_path_Nil: "contour_path self lib W H [] = Inr []"
  by (simp add: contour_path_eq largest5_def)

theorem get_contour_fallback_witness:
  "corner_path default_scanner binary64 1000 500 [] = Inr []
   \<and> contour_path default_scanner binary64 1000 500 [] = Inr []
   \<and> get_contour default_scanner binary64 1000 500 [] []
       = Inr ([(1000, 0), (1000, 500), (0, 500), (0, 0)], False)
   \<and> largest5 binary64 [[(0, 0), (100, 0), (100, 100), (0, 100)]]
       = [[(0, 0), (100, 0), (100, 100), (0, 100)]]
   \<and> is_valid_contour default_scanner binary64
        (approxPolyDP binary64 [(0, 0), (100, 0), (100, 100), (0, 100)] 80 True) 1000 1000
       = Inr False
   \<and> get_contour default_scanner binary64 1000 1000 []
        [[(0, 0), (100, 0), (100, 100), (0, 100)]]
       = Inr ([(1000, 0), (1000, 1000), (0, 1000), (0, 0)], False)"
proof -
  let ?A = "[(0, 0), (100, 0), (100, 100), (0, 100) :: point]"
  have l: "largest5 binary64 [?A] = [?A]" by (simp add: largest5_def)
  have v: "is_valid_contour default_scanner binary64 (approxPolyDP binary64 ?A 80 True) 1000 1000
             = Inr False"
    by (simp add: binary64_fields(10) rectangle_is_valid)
  have 1: "get_contour default_scanner binary64 1000 500 [] []
       = Inr ([(1000, 0), (1000, 500), (0, 500), (0, 0)], False)"
    using get_contour_fallback [of default_scanner binary64 1000 500 "[]" "[]"]
    by (simp add: corner_path_few contour_path_Nil)
  have 2: "get_contour default_scanner binary64 1000 1000 [] [?A]
       = Inr ([(1000, 0), (1000, 1000), (0, 1000), (0, 0)], False)"
    using get_contour_fallback [of default_scanner binary64 1000 1000 "[]" "[?A]"] l v
    by simp
  from 1 2 l v show ?thesis by (simp add: corner_path_few contour_path_Nil)
qed

theorem get_contour_fallback_order_counterexample:
  "get_contour default_scanner binary64 1000 500 [] []
     = Inr ([(1000, 0), (1000, 500), (0, 500), (0, 0)], False)
   \<and> get_contour default_scanner binary64 1000 500 [] []
     \<noteq> Inr ([(0, 0), (1000, 0), (1000, 500), (0, 500)], False)"
proof -
  have "get_contour default_scanner binary64 1000 500 [] []
     = Inr ([(1000, 0), (1000, 500), (0, 500), (0, 0)], False)"
    using get_contour_merge [of default_scanner binary64 1000 500 "[]" "[]" "[]" "[]"]
    by (simp add: corner_path_few contour_path_Nil whole_image_def)
  then show ?thesis by simp
qed

subsection \<open>Examples of the selection in doubles\<close>

lemma combinations_all: "combinations [a, b, c, d] 4 = [[a, b, c, d]]"
  by (simp add: numeral_eq_Suc)

lemma rectangle_valid_quad:
  assumes "0 < w" and "0 < h" and "250000 < w * h"
  shows "valid_quad default_scanner binary64 1000 1000 [(0, 0), (w, 0), (w, h), (0, h)]"
proof -
  have "(250000 :: real) < real_of_int (w * h)"
    using assms(3) by (metis of_int_less_iff of_int_numeral)
  then have "is_valid_contour default_scanner binary64 [(0, 0), (w, 0), (w, h), (0, h)] 1000 1000
               = Inr True"
    by (simp add: rectangle_is_valid [OF assms(1,2)])
  then show ?thesis by (simp only: is_valid_contour_True)
qed

lemma rectangle_contour_path:
  assumes "0 < w" and "0 < h" and "250000 < w * h"
  shows "contour_path default_scanner binary64 1000 1000 [[(0, 0), (w, 0), (w, h), (0, h)]]
           = Inr [[(0, 0), (w, 0), (w, h), (0, h)]]"
proof -
  have "is_valid_contour default_scanner binary64
          (approxPolyDP binary64 [(0, 0), (w, 0), (w, h), (0, h)] 80 True) 1000 1000 = Inr True"
    using rectangle_valid_quad [OF assms]
    by (simp add: binary64_fields(10) is_valid_contour_True)
  then show ?thesis
    by (simp add: contour_path_eq largest5_def Let_def binary64_fields(10))
qed

lemma rectangle_corner_path:
  assumes "0 < w" and "0 < h" and "250000 < w * h"
  shows "corner_path default_scanner binary64 1000 1000 [(0, 0), (w, 0), (w, h), (0, h)]
           = Inr [[(0, 0), (w, 0), (w, h), (0, h)]]"
proof -
  let ?S = "[(0, 0), (w, 0), (w, h), (0, h)]"
  have top: "largest5 binary64 (map (order_points binary64) (combinations ?S 4)) = [?S]"
    by (simp add: combinations_all binary64_fields(11) largest5_def)
  have a: "angle_range binary64 ?S = Inr (Fin 0)"
    using assms(1,2) by (intro rectangle_angle_range) simp_all
  have "4 \<le> length ?S" by simp
  moreover have "\<forall>q \<in> set (largest5 binary64 (map (order_points binary64) (combinations ?S 4))).
           \<exists>r. angle_range binary64 q = Inr (Fin r)"
    unfolding top using a by simp
  ultimately have "corner_path default_scanner binary64 1000 1000 ?S =
           Inr (let best = hd (sort_key (angle_range_val binary64)
                    (largest5 binary64 (map (order_points binary64) (combinations ?S 4))))
                in if valid_quad default_scanner binary64 1000 1000 best then [best] else [])"
    by (rule corner_path_eq)
  then show ?thesis
    unfolding top using rectangle_valid_quad [OF assms] by simp
qed

theorem get_contour_larger_area_witness:
  "corner_path default_scanner binary64 1000 1000
       [(0, 0), (600, 0), (600, 600), (0, 600)]
     = Inr [[(0, 0), (600, 0), (600, 600), (0, 600)]]
   \<and> contour_path default_scanner binary64 1000 1000
       [[(0, 0), (800, 0), (800, 800), (0, 800)]]
     = Inr [[(0, 0), (800, 0), (800, 800), (0, 800)]]
   \<and> contourArea binary64 [(0, 0), (600, 0), (600, 600), (0, 600)] = 360000
   \<and> contourArea binary64 [(0, 0), (800, 0), (800, 800), (0, 800)] = 640000
   \<and> get_contour default_scanner binary64 1000 1000
       [(0, 0), (600, 0), (600, 600), (0, 600)]
       [[(0, 0), (800, 0), (800, 800), (0, 800)]]
     = Inr ([(0, 0), (800, 0), (800, 800), (0, 800)], True)"
proof -
  let ?S = "[(0, 0), (600, 0), (600, 600), (0, 600) :: point]"
  let ?T = "[(0, 0), (800, 0), (800, 800), (0, 800) :: point]"
  have a: "corner_path default_scanner binary64 1000 1000 ?S = Inr [?S]"
    by (rule rectangle_corner_path) simp_all
  have b: "contour_path default_scanner binary64 1000 1000 [?T] = Inr [?T]"
    by (rule rectangle_contour_path) simp_all
  have ar: "contourArea binary64 ?S = 360000" "contourArea binary64 ?T = 640000"
    by (simp_all add: rectangle_contour_area)
  from get_contour_larger_area [OF a b] ar
  have "get_contour default_scanner binary64 1000 1000 ?S [?T] = Inr (?T, True)"
    by auto
  with a b ar show ?thesis by simp
qed

theorem get_contour_tie_corner_path_witness:
  "corner_path default_scanner binary64 1000 1000
       [(0, 0), (600, 0), (600, 600), (0, 600)]
     = Inr [[(0, 0), (600, 0), (600, 600), (0, 600)]]
   \<and> contour_path default_scanner binary64 1000 1000
       [[(0, 0), (900, 0), (900, 400), (0, 400)]]
     = Inr [[(0, 0), (900, 0), (900, 400), (0, 400)]]
   \<and> contourArea binary64 [(0, 0), (600, 0), (600, 600), (0, 600)]
     = contourArea binary64 [(0, 0), (900, 0), (900, 400), (0, 400)]
   \<and> get_contour default_scanner binary64 1000 1000
       [(0, 0), (600, 0), (600, 600), (0, 600)]
       [[(0, 0), (900, 0), (900, 400), (0, 400)]]
     = Inr ([(0, 0), (600, 0), (600, 600), (0, 600)], True)"
proof -
  let ?S = "[(0, 0), (600, 0), (600, 600), (0, 600) :: point]"
  let ?U = "[(0, 0), (900, 0), (900, 400), (0, 400) :: point]"
  have a: "corner_path default_scanner binary64 1000 1000 ?S = Inr [?S]"
    by (rule rectangle_corner_path) simp_all
  have b: "contour_path default_scanner binary64 1000 1000 [?U] = Inr [?U]"
    by (rule rectangle_contour_path) simp_all
  have ar: "contourArea binary64 ?S = contourArea binary64 ?U"
    by (simp add: rectangle_contour_area)
  from get_contour_tie_corner_path [OF a b ar] a b ar show ?thesis by simp
qed

section \<open>The selection of the corner path\<close>

lemma exact_permuted_quad_fin:
  assumes "distinct ps" and "length ps = 4" and "mset q = mset ps"
  shows "\<exists>r. angle_range (exact_arithmetic lib) q = Inr (Fin r)"
proof -
  have "length q = 4" using assms(2,3) by (metis mset_eq_length)
  then obtain a b c d where q: "q = [a, b, c, d]"
    by (auto simp: length_Suc_conv numeral_eq_Suc)
  have "distinct q" using assms(1,3) by (metis mset_eq_imp_distinct_iff)
  then show ?thesis unfolding q by (intro exact_angle_range_fin) auto
qed

text \<open>
  What the corner path does. With fewer than 4 candidates it contributes nothing.
  Otherwise it goes through every combination of 4 candidates (the subsequences of
  length 4, \<open>n choose 4\<close> of them), orders each with \<^verbatim>\<open>order_points\<close>, and keeps
  \<open>top5\<close>, the at most 5 quadrilaterals of greatest area. The angle range of each of
  these is computed. When all are numbers, the path selects the first of smallest angle
  range, \<open>best\<close>, and contributes \<open>best\<close> if and only if it passes
  \<^verbatim>\<open>is_valid_contour\<close>. When the angle computation raises on one of them, the
  exception leaves the path. In arithmetic that does not round, the angle ranges are
  numbers whenever the candidates are distinct and \<^verbatim>\<open>order_points\<close> returns the four
  points it is given in some order.
\<close>

theorem corner_path_selects:
  "(length cs < 4 \<longrightarrow> corner_path self lib W H cs = Inr [])
    \<and> set (combinations cs 4) = {ps. subseq ps cs \<and> length ps = 4}
    \<and> length (combinations cs 4) = length cs choose 4
    \<and> (let quads = map (order_points lib) (combinations cs 4); top5 = largest5 lib quads in
         length top5 = min 5 (length quads)
         \<and> mset top5 \<subseteq># mset quads
         \<and> sorted_wrt (\<lambda>c d. contourArea lib c \<ge> contourArea lib d) top5
         \<and> (\<forall>c d. c \<in># mset quads - mset top5 \<and> d \<in> set top5 \<longrightarrow>
                contourArea lib c \<le> contourArea lib d)
         \<and> (4 \<le> length cs \<and> (\<forall>q \<in> set top5. \<exists>r. angle_range lib q = Inr (Fin r)) \<longrightarrow>
              (\<exists>best r pre post.
                  top5 = pre @ best # post
                  \<and> angle_range lib best = Inr (Fin r)
                  \<and> (\<forall>q \<in> set pre. \<exists>r'. angle_range lib q = Inr (Fin r') \<and> r < r')
                  \<and> (\<forall>q \<in> set post. \<exists>r'. angle_range lib q = Inr (Fin r') \<and> r \<le> r')
                  \<and> corner_path self lib W H cs =
                      Inr (if valid_quad self lib W H best then [best] else [])))
         \<and> (4 \<le> length cs \<and> (\<exists>q \<in> set top5. angle_range lib q = Inl ValueError) \<longrightarrow>
              corner_path self lib W H cs = Inl ValueError
              \<and> (\<forall>cnts. get_contour self lib W H cs cnts = Inl ValueError))
         \<and> (distinct cs
              \<and> (\<forall>ps \<in> set (combinations cs 4). mset (order_points lib ps) = mset ps) \<longrightarrow>
              (\<forall>q \<in> set quads. \<exists>r. angle_range (exact_arithmetic lib) q = Inr (Fin r))))
    \<and> (\<forall>cnt. is_valid_contour self lib cnt W H = Inr True \<longleftrightarrow> valid_quad self lib W H cnt)"
proof -
  let ?quads = "map (order_points lib) (combinations cs 4)"
  let ?top = "largest5 lib ?quads"
  have fin_quads: "distinct cs
              \<and> (\<forall>ps \<in> set (combinations cs 4). mset (order_points lib ps) = mset ps) \<longrightarrow>
              (\<forall>q \<in> set ?quads. \<exists>r. angle_range (exact_arithmetic lib) q = Inr (Fin r))"
  proof (intro impI ballI)
    fix q
    assume h: "distinct cs
              \<and> (\<forall>ps \<in> set (combinations cs 4). mset (order_points lib ps) = mset ps)"
      and "q \<in> set ?quads"
    then obtain ps where ps: "ps \<in> set (combinations cs 4)" "q = order_points lib ps" by auto
    from h combinations_distinct [OF _ ps(1)] have "distinct ps" "length ps = 4" by simp_all
    moreover have "mset q = mset ps" using h ps by simp
    ultimately show "\<exists>r. angle_range (exact_arithmetic lib) q = Inr (Fin r)"
      by (rule exact_permuted_quad_fin)
  qed
  have sel: "4 \<le> length cs \<and> (\<forall>q \<in> set ?top. \<exists>r. angle_range lib q = Inr (Fin r)) \<longrightarrow>
              (\<exists>best r pre post.
                  ?top = pre @ best # post
                  \<and> angle_range lib best = Inr (Fin r)
                  \<and> (\<forall>q \<in> set pre. \<exists>r'. angle_range lib q = Inr (Fin r') \<and> r < r')
                  \<and> (\<forall>q \<in> set post. \<exists>r'. angle_range lib q = Inr (Fin r') \<and> r \<le> r')
                  \<and> corner_path self lib W H cs =
                      Inr (if valid_quad self lib W H best then [best] else []))"
  proof
    assume a: "4 \<le> length cs \<and> (\<forall>q \<in> set ?top. \<exists>r. angle_range lib q = Inr (Fin r))"
    then have len: "4 \<le> length cs"
      and fin: "\<forall>q \<in> set ?top. \<exists>r. angle_range lib q = Inr (Fin r)" by simp_all
    let ?best = "hd (sort_key (angle_range_val lib) ?top)"
    have "?quads \<noteq> []" using combinations_nonempty [OF len] by simp
    then have ne: "?top \<noteq> []" by (rule largest5_nonempty)
    from hd_sort_key_first_min [OF ne, of "angle_range_val lib"] obtain pre post where
      pp: "?top = pre @ ?best # post"
        "\<forall>y \<in> set pre. angle_range_val lib ?best < angle_range_val lib y"
        "\<forall>y \<in> set post. angle_range_val lib ?best \<le> angle_range_val lib y"
      by blast
    have mem: "?best \<in> set ?top" "set pre \<subseteq> set ?top" "set post \<subseteq> set ?top"
    proof -
      have "set ?top = set pre \<union> insert ?best (set post)"
        by (metis pp(1) set_append list.simps(15))
      then show "?best \<in> set ?top" "set pre \<subseteq> set ?top" "set post \<subseteq> set ?top"
        by blast+
    qed
    obtain r where r: "angle_range lib ?best = Inr (Fin r)" using fin mem(1) by blast
    have rv: "angle_range_val lib ?best = r" using r by (rule angle_range_val_fin)
    have pre: "\<forall>q \<in> set pre. \<exists>r'. angle_range lib q = Inr (Fin r') \<and> r < r'"
    proof
      fix q assume q: "q \<in> set pre"
      then obtain r' where r': "angle_range lib q = Inr (Fin r')" using fin mem(2) by blast
      then show "\<exists>r'. angle_range lib q = Inr (Fin r') \<and> r < r'"
        using pp(2) q rv angle_range_val_fin [OF r'] by auto
    qed
    have post: "\<forall>q \<in> set post. \<exists>r'. angle_range lib q = Inr (Fin r') \<and> r \<le> r'"
    proof
      fix q assume q: "q \<in> set post"
      then obtain r' where r': "angle_range lib q = Inr (Fin r')" using fin mem(3) by blast
      then show "\<exists>r'. angle_range lib q = Inr (Fin r') \<and> r \<le> r'"
        using pp(3) q rv angle_range_val_fin [OF r'] by auto
    qed
    have "corner_path self lib W H cs =
            Inr (if valid_quad self lib W H ?best then [?best] else [])"
      using corner_path_eq [OF len fin, of self W H] by (simp add: Let_def)
    with pp(1) r pre post show "\<exists>best r pre post.
                  ?top = pre @ best # post
                  \<and> angle_range lib best = Inr (Fin r)
                  \<and> (\<forall>q \<in> set pre. \<exists>r'. angle_range lib q = Inr (Fin r') \<and> r < r')
                  \<and> (\<forall>q \<in> set post. \<exists>r'. angle_range lib q = Inr (Fin r') \<and> r \<le> r')
                  \<and> corner_path self lib W H cs =
                      Inr (if valid_quad self lib W H best then [best] else [])"
      by blast
  qed
  have rs: "4 \<le> length cs \<and> (\<exists>q \<in> set ?top. angle_range lib q = Inl ValueError) \<longrightarrow>
              corner_path self lib W H cs = Inl ValueError
              \<and> (\<forall>cnts. get_contour self lib W H cs cnts = Inl ValueError)"
  proof
    assume "4 \<le> length cs \<and> (\<exists>q \<in> set ?top. angle_range lib q = Inl ValueError)"
    then obtain q where "4 \<le> length cs" "q \<in> set ?top" "angle_range lib q = Inl ValueError"
      by blast
    then have c: "corner_path self lib W H cs = Inl ValueError" by (rule corner_path_raises)
    then show "corner_path self lib W H cs = Inl ValueError
              \<and> (\<forall>cnts. get_contour self lib W H cs cnts = Inl ValueError)"
      by (simp add: get_contour_corner_raises)
  qed
  have dom: "\<forall>c d. c \<in># mset ?quads - mset ?top \<and> d \<in> set ?top \<longrightarrow>
                contourArea lib c \<le> contourArea lib d"
    using largest5_dominates by blast
  have few: "length cs < 4 \<longrightarrow> corner_path self lib W H cs = Inr []"
    by (simp add: corner_path_few)
  have valid: "\<forall>cnt. is_valid_contour self lib cnt W H = Inr True \<longleftrightarrow> valid_quad self lib W H cnt"
    by (simp add: is_valid_contour_True)
  show ?thesis
    unfolding Let_def
    using few set_combinations [of cs 4] length_combinations [of cs 4]
      largest5_length [of lib ?quads] largest5_subset [of lib ?quads]
      largest5_sorted [of lib ?quads] dom sel rs fin_quads valid
    by blast
qed

subsection \<open>The same quadrilaterals without rounding\<close>

lemma arccos_half_sqrt_2: "arccos (sqrt 2 / 2) = pi / 4"
proof -
  have "arccos (cos (pi / 4)) = pi / 4" by (rule arccos_cos) simp_all
  then show ?thesis by (simp only: cos_45)
qed

lemma sqrt_272322: "sqrt 272322 = 369 * sqrt 2"
proof -
  have "(272322 :: real) = 369\<^sup>2 * 2" by (simp add: power2_eq_square)
  moreover have "sqrt (369\<^sup>2 * 2) = sqrt (369\<^sup>2) * sqrt 2" by (rule real_sqrt_mult)
  moreover have "sqrt (369\<^sup>2) = (369 :: real)" by simp
  ultimately show ?thesis by (simp only:)
qed

lemma angle_at_straight: "angle_at (0, 0) (369, 369) (738, 738) = Fin 180"
  by (simp add: angle_at_def Let_def vdiff_def vec_of_def dot_def vnorm_def)

lemma arccos_inverse_sqrt_2: "arccos (1 / sqrt 2) = pi / 4"
proof -
  have "sqrt 2 * sqrt 2 = (2 :: real)" by simp
  then have "1 / sqrt 2 = sqrt 2 / 2" by (simp add: field_simps)
  then show ?thesis by (simp only: arccos_half_sqrt_2)
qed

lemma angle_at_half_right_1: "angle_at (0, 738) (0, 0) (369, 369) = Fin 45"
  by (simp add: angle_at_def Let_def vdiff_def vec_of_def dot_def vnorm_def sqrt_272322
      arccos_inverse_sqrt_2)

lemma angle_at_half_right_2: "angle_at (369, 369) (738, 738) (0, 738) = Fin 45"
  by (simp add: angle_at_def Let_def vdiff_def vec_of_def dot_def vnorm_def sqrt_272322
      arccos_inverse_sqrt_2)

lemma angle_at_right: "angle_at (738, 738) (0, 738) (0, 0) = Fin 90"
  by (simp add: angle_at_def Let_def vdiff_def vec_of_def dot_def vnorm_def)

lemma exact_slanted_angle_range:
  "angle_range (exact_arithmetic lib) [(0, 0), (369, 369), (738, 738), (0, 738)] = Inr (Fin 135)"
  by (simp add: angle_range_4 exact_get_angle_angle_at and_then_Inr np_ptp_4
      angle_at_straight angle_at_half_right_1 angle_at_half_right_2 angle_at_right exact_fields)

lemma exact_rectangle_angle_range:
  assumes "w \<noteq> 0" and "h \<noteq> 0"
  shows "angle_range (exact_arithmetic lib) [(0, 0), (w, 0), (w, h), (0, h)] = Inr (Fin 0)"
  using assms
  by (simp add: angle_range_4 exact_get_angle_angle_at and_then_Inr np_ptp_4 angle_at_def
      Let_def dot_def vdiff_def vec_of_def exact_fields)

lemma slanted_corner_path:
  "corner_path default_scanner binary64 1000 1000 [(0, 0), (369, 369), (738, 738), (0, 738)]
     = Inl ValueError"
proof -
  let ?Q = "[(0, 0), (369, 369), (738, 738), (0, 738) :: point]"
  have top: "largest5 binary64 (map (order_points binary64) (combinations ?Q 4)) = [?Q]"
    by (simp add: combinations_all binary64_fields(11) largest5_def)
  show ?thesis
    by (rule corner_path_raises [where q = ?Q]) (simp_all add: top slanted_angle_range)
qed

lemma exact_slanted_corner_path:
  "corner_path default_scanner (exact_arithmetic binary64) 1000 1000
     [(0, 0), (369, 369), (738, 738), (0, 738)] = Inr []"
proof -
  let ?Q = "[(0, 0), (369, 369), (738, 738), (0, 738) :: point]"
  let ?E = "exact_arithmetic binary64"
  have top: "largest5 ?E (map (order_points ?E) (combinations ?Q 4)) = [?Q]"
    by (simp add: combinations_all exact_fields binary64_fields(11) largest5_def)
  have "4 \<le> length ?Q" by simp
  moreover have "\<forall>q \<in> set (largest5 ?E (map (order_points ?E) (combinations ?Q 4))).
           \<exists>r. angle_range ?E q = Inr (Fin r)"
    unfolding top by (simp add: exact_slanted_angle_range)
  ultimately have "corner_path default_scanner ?E 1000 1000 ?Q =
           Inr (let best = hd (sort_key (angle_range_val ?E)
                    (largest5 ?E (map (order_points ?E) (combinations ?Q 4))))
                in if valid_quad default_scanner ?E 1000 1000 best then [best] else [])"
    by (rule corner_path_eq)
  moreover have "\<not> valid_quad default_scanner ?E 1000 1000 ?Q"
    by (simp add: valid_quad_def exact_slanted_angle_range default_scanner_def)
  ultimately show ?thesis unfolding top by simp
qed

lemma exact_rectangle_contour_path:
  assumes "0 < w" and "0 < h" and "250000 < w * h"
  shows "contour_path default_scanner (exact_arithmetic binary64) 1000 1000
           [[(0, 0), (w, 0), (w, h), (0, h)]]
           = Inr [[(0, 0), (w, 0), (w, h), (0, h)]]"
proof -
  let ?E = "exact_arithmetic binary64"
  have "(250000 :: real) < real_of_int (w * h)"
    using assms(3) by (metis of_int_less_iff of_int_numeral)
  moreover have "contourArea ?E [(0, 0), (w, 0), (w, h), (0, h)] = real_of_int (w * h)"
    using assms(1,2) rectangle_contour_area [of w h] by (simp add: exact_fields)
  moreover have "angle_range ?E [(0, 0), (w, 0), (w, h), (0, h)] = Inr (Fin 0)"
    using assms(1,2) by (intro exact_rectangle_angle_range) simp_all
  ultimately have "is_valid_contour default_scanner ?E
          (approxPolyDP ?E [(0, 0), (w, 0), (w, h), (0, h)] 80 True) 1000 1000 = Inr True"
    by (simp add: is_valid_contour_def exact_fields binary64_fields(10) and_then_Inr
        default_scanner_def)
  then show ?thesis
    by (simp add: contour_path_eq largest5_def Let_def exact_fields binary64_fields(10))
qed

text \<open>
  Claim C1. The corner path on the four corner candidates \<open>(0, 0)\<close>, \<open>(369, 369)\<close>,
  \<open>(738, 738)\<close>, \<open>(0, 738)\<close> in a frame of 1000 by 1000: there is one combination
  of 4, the quadrilateral of the four. Its angle at \<open>(369, 369)\<close> is that of three
  points on a line; in doubles the cosine is \<open>-1.0000000000000002\<close>, so
  \<^verbatim>\<open>math.acos\<close> raises \<^verbatim>\<open>ValueError\<close> inside \<^verbatim>\<open>sorted(quads, key=self.angle_range)\<close>
  and the exception leaves \<^verbatim>\<open>get_contour\<close>, although the contour path has a valid
  candidate. Computed without rounding, the quadrilateral has the angle range 135, the
  corner path selects it and contributes nothing, because it is not valid, and
  \<^verbatim>\<open>get_contour\<close> returns the candidate of the contour path.
\<close>

theorem corner_path_collinear_raises:
  "combinations [(0, 0), (369, 369), (738, 738), (0, 738) :: point] 4
     = [[(0, 0), (369, 369), (738, 738), (0, 738)]]
   \<and> get_angle binary64 (0, 0) (369, 369) (738, 738) = Inl ValueError
   \<and> angle_range binary64 [(0, 0), (369, 369), (738, 738), (0, 738)] = Inl ValueError
   \<and> corner_path default_scanner binary64 1000 1000
        [(0, 0), (369, 369), (738, 738), (0, 738)] = Inl ValueError
   \<and> contour_path default_scanner binary64 1000 1000
        [[(0, 0), (700, 0), (700, 700), (0, 700)]]
       = Inr [[(0, 0), (700, 0), (700, 700), (0, 700)]]
   \<and> get_contour default_scanner binary64 1000 1000
        [(0, 0), (369, 369), (738, 738), (0, 738)]
        [[(0, 0), (700, 0), (700, 700), (0, 700)]] = Inl ValueError
   \<and> angle_range (exact_arithmetic binary64) [(0, 0), (369, 369), (738, 738), (0, 738)]
       = Inr (Fin 135)
   \<and> corner_path default_scanner (exact_arithmetic binary64) 1000 1000
        [(0, 0), (369, 369), (738, 738), (0, 738)] = Inr []
   \<and> get_contour default_scanner (exact_arithmetic binary64) 1000 1000
        [(0, 0), (369, 369), (738, 738), (0, 738)]
        [[(0, 0), (700, 0), (700, 700), (0, 700)]]
       = Inr ([(0, 0), (700, 0), (700, 700), (0, 700)], True)"
proof -
  let ?Q = "[(0, 0), (369, 369), (738, 738), (0, 738) :: point]"
  let ?T = "[(0, 0), (700, 0), (700, 700), (0, 700) :: point]"
  let ?E = "exact_arithmetic binary64"
  have b: "contour_path default_scanner binary64 1000 1000 [?T] = Inr [?T]"
    by (rule rectangle_contour_path) simp_all
  have g: "get_contour default_scanner binary64 1000 1000 ?Q [?T] = Inl ValueError"
    using slanted_corner_path by (rule get_contour_corner_raises)
  have eb: "contour_path default_scanner ?E 1000 1000 [?T] = Inr [?T]"
    by (rule exact_rectangle_contour_path) simp_all
  have eg: "get_contour default_scanner ?E 1000 1000 ?Q [?T] = Inr (?T, True)"
    using get_contour_merge [OF exact_slanted_corner_path eb]
    by (simp add: max_py_def reshape_4_2_def and_then_Inr)
  from b g eb eg show ?thesis
    by (simp add: combinations_all get_angle_straight_raises slanted_angle_range
        slanted_corner_path exact_slanted_angle_range exact_slanted_corner_path)
qed

section \<open>Degenerate vertices and exceptions\<close>










end
